theory Spec2Isabelle
  imports Main "HOL-Library.Word"
begin

unbundle bit_operations_syntax

section \<open>Strings, bytes and the platform primitives\<close>

text \<open>
  A C string is modelled by the list of the bytes of its buffer in front of the final
  terminator: the buffer of \<open>s\<close> holds \<open>length s + 1\<close> bytes, the last one being 0.
  Reading the byte at offset \<open>length s\<close> yields the terminator; reading at any larger
  (or negative) offset leaves the buffer, which C leaves undefined. The model makes that
  read an error value, and every function that reads string bytes passes the error on.

  The \<open>int\<close> variables of the code (indices, depths, match lengths) are integers
  without bound here: nothing below is about arrays of \<open>2\<^sup>3\<^sup>1\<close> items or strings of
  \<open>2\<^sup>3\<^sup>1\<close> bytes. Array indices are taken within the array, as every call coming
  from the top-level drivers has them.
\<close>

type_synonym byte = "8 word"
type_synonym cstring = "byte list"

datatype error = OutOfBounds

definition strlen :: "cstring \<Rightarrow> nat" where
  "strlen s = length (takeWhile (\<lambda>b. b \<noteq> 0) s)"

definition read_byte :: "cstring \<Rightarrow> int \<Rightarrow> error + byte" where
  "read_byte s i =
     (if 0 \<le> i \<and> i < int (length s) then Inr (s ! nat i)
      else if i = int (length s) then Inr 0
      else Inl OutOfBounds)"

definition nul_free :: "cstring \<Rightarrow> bool" where
  "nul_free s = (0 \<notin> set s)"

text \<open>The portable \<open>bswap64\<close> of \<^verbatim>\<open>orasort2.c\<close>, mask by mask.\<close>

definition bswap64 :: "64 word \<Rightarrow> 64 word" where
  "bswap64 x =
     push_bit 56 (x AND 0x00000000000000FF) OR
     push_bit 40 (x AND 0x000000000000FF00) OR
     push_bit 24 (x AND 0x0000000000FF0000) OR
     push_bit 8  (x AND 0x00000000FF000000) OR
     drop_bit 8  (x AND 0x000000FF00000000) OR
     drop_bit 24 (x AND 0x0000FF0000000000) OR
     drop_bit 40 (x AND 0x00FF000000000000) OR
     drop_bit 56 (x AND 0xFF00000000000000)"

text \<open>The portable \<open>clz64\<close> of \<^verbatim>\<open>orasort2.c\<close>: a binary search for the highest set bit.\<close>

definition clz_step :: "64 word \<Rightarrow> nat \<Rightarrow> int \<times> 64 word \<Rightarrow> int \<times> 64 word" where
  "clz_step msk sh = (\<lambda>(n, x). if x AND msk = 0 then (n + int sh, push_bit sh x) else (n, x))"

definition clz64 :: "64 word \<Rightarrow> int" where
  "clz64 x =
     (if x = 0 then 64
      else
        let (n, x) = clz_step 0xFFFFFFFF00000000 32 (0, x);
            (n, x) = clz_step 0xFFFF000000000000 16 (n, x);
            (n, x) = clz_step 0xFF00000000000000 8 (n, x);
            (n, x) = clz_step 0xF000000000000000 4 (n, x);
            (n, x) = clz_step 0xC000000000000000 2 (n, x)
        in if x AND 0x8000000000000000 = 0 then n + 1 else n)"

text \<open>
  \<open>memcpy(&raw, buf, 8)\<close> on the little-endian machine the source assumes: byte \<open>k\<close> of
  the buffer becomes bits \<open>8k .. 8k+7\<close> of the integer.
\<close>

fun load_le :: "byte list \<Rightarrow> 64 word" where
  "load_le [] = 0"
| "load_le (b # bs) = ucast b OR push_bit 8 (load_le bs)"

section \<open>Items and the byte window loader\<close>

record StringItem =
  ptr :: cstring
  cache :: "64 word"

text \<open>
  \<open>refresh_cache\<close>. The cast \<open>(size_t)depth\<close> of a negative \<open>depth\<close> is larger than every
  length, so a negative depth takes the first branch as well.
\<close>

definition refresh_cache :: "StringItem \<Rightarrow> int \<Rightarrow> StringItem" where
  "refresh_cache item depth =
     (let str = ptr item; len = strlen str in
      if depth < 0 \<or> int len \<le> depth then item\<lparr>cache := 0\<rparr>
      else
        let remaining = len - nat depth;
            copy_len = (if remaining < 8 then remaining else 8);
            buf = take copy_len (drop (nat depth) str) @ replicate (8 - copy_len) 0;
            raw = load_le buf
        in item\<lparr>cache := bswap64 raw\<rparr>)"

section \<open>The comparator\<close>

text \<open>
  The slow path's loop \<^verbatim>\<open>while (s1[k] && s2[k] && s1[k] == s2[k]) k++\<close>, where
  \<open>s1 = a->ptr + depth + 8\<close>: the pointer arithmetic is the offset \<open>off\<close>, every
  \<open>s[k]\<close> is a read of the string's buffer at \<open>off + k\<close>, and \<open>&&\<close> reads its right
  operand only when the left one holds.
\<close>

function scan_equal :: "cstring \<Rightarrow> cstring \<Rightarrow> int \<Rightarrow> int \<Rightarrow> error + int" where
  "scan_equal s1 s2 off k =
     (case read_byte s1 (off + k) of
        Inl e \<Rightarrow> Inl e
      | Inr c1 \<Rightarrow>
          if c1 = 0 then Inr k
          else (case read_byte s2 (off + k) of
                  Inl e \<Rightarrow> Inl e
                | Inr c2 \<Rightarrow>
                    if c2 = 0 then Inr k
                    else if c1 = c2 then scan_equal s1 s2 off (k + 1)
                    else Inr k))"
  by pat_completeness auto
termination
  by (relation "measure (\<lambda>(s1, s2, off, k). nat (int (length s1) - (off + k)))")
     (auto simp: read_byte_def split: if_splits)

text \<open>\<open>compare_and_count\<close> returns the pair (comparison result, \<open>*match_len_out\<close>).\<close>

definition compare_and_count :: "StringItem \<Rightarrow> StringItem \<Rightarrow> int \<Rightarrow> error + (int \<times> int)" where
  "compare_and_count a b depth =
     (if cache a \<noteq> cache b then
        let diff = cache a XOR cache b;
            leading_zeros = clz64 diff;
            match_len = leading_zeros div 8
        in Inr (if cache a < cache b then - 1 else 1, match_len)
      else
        case scan_equal (ptr a) (ptr b) (depth + 8) 0 of
          Inl e \<Rightarrow> Inl e
        | Inr k \<Rightarrow>
            (case read_byte (ptr a) (depth + 8 + k) of
               Inl e \<Rightarrow> Inl e
             | Inr c1 \<Rightarrow>
                 (case read_byte (ptr b) (depth + 8 + k) of
                    Inl e \<Rightarrow> Inl e
                  | Inr c2 \<Rightarrow> Inr (uint c1 - uint c2, 8 + k))))"

section \<open>The prefix-tracking partition\<close>

definition swap_items :: "StringItem list \<Rightarrow> int \<Rightarrow> int \<Rightarrow> StringItem list" where
  "swap_items arr a b = (let temp = arr ! nat a in (arr[nat a := arr ! nat b])[nat b := temp])"

definition INT_MAX :: int where
  "INT_MAX = 2147483647"

text \<open>
  The two inner loops of the partition. Each returns its cursor and the running minimum
  \<open>min_common_with_pivot\<close>.
\<close>

function scan_left ::
  "StringItem list \<Rightarrow> StringItem \<Rightarrow> int \<Rightarrow> int \<Rightarrow> int \<Rightarrow> int \<Rightarrow> error + (int \<times> int)" where
  "scan_left arr pivot depth i j mc =
     (if i \<le> j then
        (case compare_and_count (arr ! nat i) pivot depth of
           Inl e \<Rightarrow> Inl e
         | Inr (cmp, match_len) \<Rightarrow>
             let mc' = (if match_len < mc then match_len else mc)
             in if cmp \<ge> 0 then Inr (i, mc') else scan_left arr pivot depth (i + 1) j mc')
      else Inr (i, mc))"
  by pat_completeness auto
termination
  by (relation "measure (\<lambda>(arr, pivot, depth, i, j, mc). nat (j + 1 - i))") auto

function scan_right ::
  "StringItem list \<Rightarrow> StringItem \<Rightarrow> int \<Rightarrow> int \<Rightarrow> int \<Rightarrow> int \<Rightarrow> error + (int \<times> int)" where
  "scan_right arr pivot depth i j mc =
     (if i \<le> j then
        (case compare_and_count (arr ! nat j) pivot depth of
           Inl e \<Rightarrow> Inl e
         | Inr (cmp, match_len) \<Rightarrow>
             let mc' = (if match_len < mc then match_len else mc)
             in if cmp \<le> 0 then Inr (j, mc') else scan_right arr pivot depth i (j - 1) mc')
      else Inr (j, mc))"
  by pat_completeness auto
termination
  by (relation "measure (\<lambda>(arr, pivot, depth, i, j, mc). nat (j + 1 - i))") auto

declare scan_left.simps [simp del] scan_right.simps [simp del]

lemma scan_left_done: "j < i \<Longrightarrow> scan_left arr pivot depth i j mc = Inr (i, mc)"
  by (simp add: scan_left.simps[of arr pivot depth i j mc])

lemma scan_right_done: "j < i \<Longrightarrow> scan_right arr pivot depth i j mc = Inr (j, mc)"
  by (simp add: scan_right.simps[of arr pivot depth i j mc])

lemma scan_left_bounds:
  "scan_left arr pivot depth i j mc = Inr (i', mc') \<Longrightarrow> i \<le> i' \<and> (i \<le> j + 1 \<longrightarrow> i' \<le> j + 1)"
proof (induction arr pivot depth i j mc rule: scan_left.induct)
  case (1 arr pivot depth i j mc)
  note eq = "1.prems"[unfolded scan_left.simps[of arr pivot depth i j mc]]
  show ?case
  proof (cases "i \<le> j")
    case False
    with eq show ?thesis by simp
  next
    case True
    with eq obtain cmp ml where
      c: "compare_and_count (arr ! nat i) pivot depth = Inr (cmp, ml)"
      by (auto split: sum.splits)
    show ?thesis
    proof (cases "cmp \<ge> 0")
      case True
      with \<open>i \<le> j\<close> c eq show ?thesis by (simp add: Let_def)
    next
      case False
      with \<open>i \<le> j\<close> c eq "1.IH"[OF \<open>i \<le> j\<close> c refl refl False]
      show ?thesis by (simp add: Let_def)
    qed
  qed
qed

lemma scan_right_bounds:
  "scan_right arr pivot depth i j mc = Inr (j', mc') \<Longrightarrow> j' \<le> j \<and> (i \<le> j + 1 \<longrightarrow> i - 1 \<le> j')"
proof (induction arr pivot depth i j mc rule: scan_right.induct)
  case (1 arr pivot depth i j mc)
  note eq = "1.prems"[unfolded scan_right.simps[of arr pivot depth i j mc]]
  show ?case
  proof (cases "i \<le> j")
    case False
    with eq show ?thesis by simp
  next
    case True
    with eq obtain cmp ml where
      c: "compare_and_count (arr ! nat j) pivot depth = Inr (cmp, ml)"
      by (auto split: sum.splits)
    show ?thesis
    proof (cases "cmp \<le> 0")
      case True
      with \<open>i \<le> j\<close> c eq show ?thesis by (simp add: Let_def)
    next
      case False
      with \<open>i \<le> j\<close> c eq "1.IH"[OF \<open>i \<le> j\<close> c refl refl False]
      show ?thesis by (simp add: Let_def)
    qed
  qed
qed

text \<open>
  The outer \<^verbatim>\<open>while (1)\<close> loop: scan left, scan right, then swap and continue, or stop.
  It returns the array, both cursors and the running minimum.
\<close>

function partition_loop ::
  "StringItem list \<Rightarrow> StringItem \<Rightarrow> int \<Rightarrow> int \<Rightarrow> int \<Rightarrow> int
     \<Rightarrow> error + (StringItem list \<times> int \<times> int \<times> int)" where
  "partition_loop arr pivot depth i j mc =
     (case scan_left arr pivot depth i j mc of
        Inl e \<Rightarrow> Inl e
      | Inr (i1, mc1) \<Rightarrow>
          (case scan_right arr pivot depth i1 j mc1 of
             Inl e \<Rightarrow> Inl e
           | Inr (j1, mc2) \<Rightarrow>
               if i1 \<le> j1 then partition_loop (swap_items arr i1 j1) pivot depth (i1 + 1) (j1 - 1) mc2
               else Inr (arr, i1, j1, mc2)))"
  by pat_completeness auto
termination
proof (relation "measure (\<lambda>(arr, pivot, depth, i, j, mc). nat (j + 1 - i))", goal_cases)
  case 1
  show ?case by simp
next
  case (2 arr pivot depth i j mc x2 i1 mc1 x2a j1 mc2)
  from 2 have "i \<le> i1" "j1 \<le> j"
    using scan_left_bounds[of arr pivot depth i j mc i1 mc1]
          scan_right_bounds[of arr pivot depth i1 j mc1 j1 mc2]
    by auto
  with \<open>i1 \<le> j1\<close> show ?case by simp
qed

declare partition_loop.simps [simp del]

lemma partition_loop_bounds:
  "partition_loop arr pivot depth i j mc = Inr (arr', i', j', mc') \<Longrightarrow>
     j' \<le> j \<and> i \<le> i' \<and> (i \<le> j + 1 \<longrightarrow> i - 1 \<le> j') \<and> (j < i \<longrightarrow> j' = j \<and> i' = i)"
proof (induction arr pivot depth i j mc rule: partition_loop.induct)
  case (1 arr pivot depth i j mc)
  note eq = "1.prems"[unfolded partition_loop.simps[of arr pivot depth i j mc]]
  from eq obtain i1 mc1 where
    l: "scan_left arr pivot depth i j mc = Inr (i1, mc1)"
    by (auto split: sum.splits)
  from eq l obtain j1 mc2 where
    r: "scan_right arr pivot depth i1 j mc1 = Inr (j1, mc2)"
    by (auto split: sum.splits)
  note lb = scan_left_bounds[OF l] and rb = scan_right_bounds[OF r]
  show ?case
  proof (cases "i1 \<le> j1")
    case False
    with eq l r have "i' = i1" "j' = j1" by simp_all
    moreover have "j < i \<Longrightarrow> i1 = i \<and> j1 = j"
      using l r scan_left_done[of j i arr pivot depth mc] scan_right_done[of j i arr pivot depth mc]
      by simp
    ultimately show ?thesis using lb rb False by auto
  next
    case True
    with eq l r have
      "partition_loop (swap_items arr i1 j1) pivot depth (i1 + 1) (j1 - 1) mc2 = Inr (arr', i', j', mc')"
      by simp
    from "1.IH"[OF l refl r refl True this] lb rb True show ?thesis by auto
  qed
qed

section \<open>The depth-aware recursive driver\<close>

text \<open>\<^verbatim>\<open>for (int k = low; k <= hi; k++) refresh_cache(&arr[k], new_depth);\<close>\<close>

function refresh_range :: "StringItem list \<Rightarrow> int \<Rightarrow> int \<Rightarrow> int \<Rightarrow> StringItem list" where
  "refresh_range arr k hi new_depth =
     (if k \<le> hi
      then refresh_range (arr[nat k := refresh_cache (arr ! nat k) new_depth]) (k + 1) hi new_depth
      else arr)"
  by pat_completeness auto
termination
  by (relation "measure (\<lambda>(arr, k, hi, new_depth). nat (hi + 1 - k))") auto

declare refresh_range.simps [simp del]

text \<open>
  The C file and the C++ file hold the same recursive driver and differ in two places: the
  pivot index (the middle element in C, \<open>low + rand() % (high - low + 1)\<close> in C++) and
  the reset of an untouched \<open>min_common_with_pivot\<close> to 0 (C only). The library's
  \<open>rand()\<close> is not part of the repository: it is the parameter \<open>rnd\<close>, the sequence of
  the results of its future calls, and the state \<open>c\<close> counts the calls made so far.
\<close>

datatype port = C_port | Cpp_port

definition select_pivot :: "port \<Rightarrow> (nat \<Rightarrow> nat) \<Rightarrow> nat \<Rightarrow> int \<Rightarrow> int \<Rightarrow> int \<times> nat" where
  "select_pivot p rnd c low high =
     (case p of
        C_port \<Rightarrow> (low + (high - low) div 2, c)
      | Cpp_port \<Rightarrow> (low + int (rnd c) mod (high - low + 1), c + 1))"

text \<open>
  The first half of the driver's body, from the pivot selection to the reset of
  \<open>min_common_with_pivot\<close>: the partition of \<open>[low, high]\<close>. It returns the array, the
  call counter of \<open>rand()\<close>, the split index \<open>j\<close> and \<open>min_common_with_pivot\<close>.
\<close>

definition partition ::
  "port \<Rightarrow> (nat \<Rightarrow> nat) \<Rightarrow> nat \<Rightarrow> StringItem list \<Rightarrow> int \<Rightarrow> int \<Rightarrow> int
     \<Rightarrow> error + (StringItem list \<times> nat \<times> int \<times> int)" where
  "partition p rnd c arr low high depth =
     (let (pivot_idx, c1) = select_pivot p rnd c low high;
          arr1 = swap_items arr low pivot_idx;
          pivot = arr1 ! nat low
      in case partition_loop arr1 pivot depth (low + 1) high INT_MAX of
           Inl e \<Rightarrow> Inl e
         | Inr (arr2, i, j, mc) \<Rightarrow>
             let arr3 = swap_items arr2 low j;
                 min_common_with_pivot = (if p = C_port \<and> mc = INT_MAX then 0 else mc)
             in Inr (arr3, c1, j, min_common_with_pivot))"

lemma partition_split_bounds:
  assumes "partition p rnd c arr low high depth = Inr (arr3, c1, j, mc)" and "low < high"
  shows "low \<le> j \<and> j \<le> high"
proof -
  obtain pivot_idx c1' where sp: "select_pivot p rnd c low high = (pivot_idx, c1')"
    by (cases "select_pivot p rnd c low high")
  with assms(1) obtain arr2 i mc0 where
    "partition_loop (swap_items arr low pivot_idx) (swap_items arr low pivot_idx ! nat low)
       depth (low + 1) high INT_MAX = Inr (arr2, i, j, mc0)"
    by (auto simp add: partition_def Let_def split: sum.splits)
  from partition_loop_bounds[OF this] assms(2) show ?thesis by simp
qed

text \<open>The second half: the two recursive calls, each after the refresh of its sub-range.\<close>

function sort_recursive ::
  "port \<Rightarrow> (nat \<Rightarrow> nat) \<Rightarrow> nat \<Rightarrow> StringItem list \<Rightarrow> int \<Rightarrow> int \<Rightarrow> int
     \<Rightarrow> error + (StringItem list \<times> nat)" where
  "sort_recursive p rnd c arr low high depth =
     (if low \<ge> high then Inr (arr, c)
      else
        case partition p rnd c arr low high depth of
          Inl e \<Rightarrow> Inl e
        | Inr (arr3, c1, j, min_common_with_pivot) \<Rightarrow>
            let new_depth = depth + min_common_with_pivot
            in case (if low < j - 1
                     then sort_recursive p rnd c1
                            (if new_depth > depth then refresh_range arr3 low (j - 1) new_depth else arr3)
                            low (j - 1) new_depth
                     else Inr (arr3, c1)) of
                 Inl e \<Rightarrow> Inl e
               | Inr (arr4, c2) \<Rightarrow>
                   if j + 1 < high
                   then sort_recursive p rnd c2
                          (if new_depth > depth then refresh_range arr4 (j + 1) high new_depth else arr4)
                          (j + 1) high new_depth
                   else Inr (arr4, c2))"
  by pat_completeness auto
termination
proof (relation "measure (\<lambda>(p, rnd, c, arr, low, high, depth). nat (high - low))", goal_cases)
  case 1
  show ?case by simp
next
  case (2 p rnd c arr low high depth x2 arr3 y c1 ya j mc new_depth)
  then have "partition p rnd c arr low high depth = Inr (arr3, c1, j, mc)" "low < high"
    by simp_all
  from partition_split_bounds[OF this] \<open>low < high\<close> show ?case by simp
next
  case (3 p rnd c arr low high depth x2 arr3 y c1 ya j mc new_depth)
  then have "partition p rnd c arr low high depth = Inr (arr3, c1, j, mc)" "low < high"
    by simp_all
  from partition_split_bounds[OF this] \<open>j + 1 < high\<close> show ?case by simp
qed

declare sort_recursive.simps [simp del]

section \<open>The top-level drivers\<close>

text \<open>
  \<open>optimized_orasort\<close> of the C file. It returns nothing; the model returns the caller's
  array as it stands when the call returns. \<open>malloc_ok\<close> tells whether \<open>malloc\<close> succeeds.
  Every slot of the fresh item array has its cache set by \<open>refresh_cache\<close> before it is
  read, so the value the cache holds before that does not matter. The C driver never
  calls \<open>rand()\<close>.
\<close>

definition make_item :: "cstring \<Rightarrow> StringItem" where
  "make_item s = refresh_cache \<lparr>ptr = s, cache = 0\<rparr> 0"

definition optimized_orasort :: "bool \<Rightarrow> cstring list \<Rightarrow> error + cstring list" where
  "optimized_orasort malloc_ok strings =
     (let n = int (length strings) in
      if n \<le> 1 then Inr strings
      else if \<not> malloc_ok then Inr strings
      else
        let items = map make_item strings
        in case sort_recursive C_port (\<lambda>k. 0) 0 items 0 (n - 1) 0 of
             Inl e \<Rightarrow> Inl e
           | Inr (items', c') \<Rightarrow> Inr (map ptr items'))"

text \<open>\<open>OptimizedOrasort::sort\<close> of the C++ file, given \<open>rand()\<close>.\<close>

definition OptimizedOrasort_sort :: "(nat \<Rightarrow> nat) \<Rightarrow> cstring list \<Rightarrow> error + cstring list" where
  "OptimizedOrasort_sort rnd data =
     (if data = [] then Inr data
      else
        let items = map make_item data
        in case sort_recursive Cpp_port rnd 0 items 0 (int (length items) - 1) 0 of
             Inl e \<Rightarrow> Inl e
           | Inr (items', c') \<Rightarrow> Inr (map ptr items'))"

section \<open>The precursor: scan for the common prefix, then partition\<close>

text \<open>
  \<^verbatim>\<open>orasort.c\<close>. The array holds the string pointers themselves. \<open>strcmp\<close> belongs to
  the C library; it is modelled by the difference of the first pair of differing bytes,
  read as unsigned, which has the sign the C standard prescribes.
\<close>

definition swap_strings :: "cstring list \<Rightarrow> int \<Rightarrow> int \<Rightarrow> cstring list" where
  "swap_strings arr a b = (let temp = arr ! nat a in (arr[nat a := arr ! nat b])[nat b := temp])"

text \<open>The inner \<open>while\<close> loop of \<open>get_common_prefix\<close>, with its \<open>break\<close>.\<close>

function prefix_scan :: "cstring \<Rightarrow> cstring \<Rightarrow> int \<Rightarrow> int \<Rightarrow> int \<Rightarrow> error + int" where
  "prefix_scan ref cur depth min_common k =
     (case read_byte ref (depth + k) of
        Inl e \<Rightarrow> Inl e
      | Inr r \<Rightarrow>
          if r = 0 then Inr k
          else (case read_byte cur (depth + k) of
                  Inl e \<Rightarrow> Inl e
                | Inr cu \<Rightarrow>
                    if cu = 0 then Inr k
                    else if r = cu then
                      (if min_common \<noteq> - 1 \<and> k + 1 \<ge> min_common then Inr (k + 1)
                       else prefix_scan ref cur depth min_common (k + 1))
                    else Inr k))"
  by pat_completeness auto
termination
  by (relation "measure (\<lambda>(ref, cur, depth, min_common, k). nat (int (length ref) - (depth + k)))")
     (auto simp: read_byte_def split: if_splits)

declare prefix_scan.simps [simp del]

text \<open>The \<open>for\<close> loop of \<open>get_common_prefix\<close>.\<close>

function common_prefix_loop ::
  "cstring list \<Rightarrow> cstring \<Rightarrow> int \<Rightarrow> int \<Rightarrow> int \<Rightarrow> int \<Rightarrow> error + int" where
  "common_prefix_loop arr ref high depth i min_common =
     (if i \<le> high then
        (case prefix_scan ref (arr ! nat i) depth min_common 0 of
           Inl e \<Rightarrow> Inl e
         | Inr k \<Rightarrow>
             let min_common' = (if min_common = - 1 \<or> k < min_common then k else min_common)
             in if min_common' = 0 then Inr 0
                else common_prefix_loop arr ref high depth (i + 1) min_common')
      else Inr (if min_common = - 1 then 0 else min_common))"
  by pat_completeness auto
termination
  by (relation "measure (\<lambda>(arr, ref, high, depth, i, min_common). nat (high + 1 - i))") auto

declare common_prefix_loop.simps [simp del]

definition get_common_prefix :: "cstring list \<Rightarrow> int \<Rightarrow> int \<Rightarrow> int \<Rightarrow> error + int" where
  "get_common_prefix arr low high depth =
     (if low \<ge> high then Inr 0
      else common_prefix_loop arr (arr ! nat low) high depth (low + 1) (- 1))"

function strcmp_from :: "cstring \<Rightarrow> cstring \<Rightarrow> int \<Rightarrow> error + int" where
  "strcmp_from s1 s2 off =
     (case read_byte s1 off of
        Inl e \<Rightarrow> Inl e
      | Inr c1 \<Rightarrow>
          (case read_byte s2 off of
             Inl e \<Rightarrow> Inl e
           | Inr c2 \<Rightarrow>
               if c1 \<noteq> c2 then Inr (uint c1 - uint c2)
               else if c1 = 0 then Inr 0
               else strcmp_from s1 s2 (off + 1)))"
  by pat_completeness auto
termination
  by (relation "measure (\<lambda>(s1, s2, off). nat (int (length s1) - off))")
     (auto simp: read_byte_def split: if_splits)

declare strcmp_from.simps [simp del]

definition compare_skip :: "cstring \<Rightarrow> cstring \<Rightarrow> int \<Rightarrow> error + int" where
  "compare_skip s1 s2 depth = strcmp_from s1 s2 depth"

text \<open>
  \<^verbatim>\<open>while (i <= high && compare_skip(arr[i], pivot, new_depth) < 0) i++;\<close> and
  \<^verbatim>\<open>while (j > low && compare_skip(arr[j], pivot, new_depth) > 0) j--;\<close>
\<close>

function advance_i :: "cstring list \<Rightarrow> cstring \<Rightarrow> int \<Rightarrow> int \<Rightarrow> int \<Rightarrow> error + int" where
  "advance_i arr pivot new_depth high i =
     (if i \<le> high then
        (case compare_skip (arr ! nat i) pivot new_depth of
           Inl e \<Rightarrow> Inl e
         | Inr cmp \<Rightarrow> if cmp < 0 then advance_i arr pivot new_depth high (i + 1) else Inr i)
      else Inr i)"
  by pat_completeness auto
termination
  by (relation "measure (\<lambda>(arr, pivot, new_depth, high, i). nat (high + 1 - i))") auto

function retreat_j :: "cstring list \<Rightarrow> cstring \<Rightarrow> int \<Rightarrow> int \<Rightarrow> int \<Rightarrow> error + int" where
  "retreat_j arr pivot new_depth low j =
     (if j > low then
        (case compare_skip (arr ! nat j) pivot new_depth of
           Inl e \<Rightarrow> Inl e
         | Inr cmp \<Rightarrow> if cmp > 0 then retreat_j arr pivot new_depth low (j - 1) else Inr j)
      else Inr j)"
  by pat_completeness auto
termination
  by (relation "measure (\<lambda>(arr, pivot, new_depth, low, j). nat (j - low))") auto

declare advance_i.simps [simp del] retreat_j.simps [simp del]

lemma advance_i_ge: "advance_i arr pivot new_depth high i = Inr i' \<Longrightarrow> i \<le> i'"
proof (induction arr pivot new_depth high i rule: advance_i.induct)
  case (1 arr pivot new_depth high i)
  note eq = "1.prems"[unfolded advance_i.simps[of arr pivot new_depth high i]]
  from eq consider (stop) "i' = i"
    | (rec) cmp where "i \<le> high" "compare_skip (arr ! nat i) pivot new_depth = Inr cmp" "cmp < 0"
        "advance_i arr pivot new_depth high (i + 1) = Inr i'"
    by (auto split: sum.splits if_splits)
  then show ?case
  proof cases
    case stop
    then show ?thesis by simp
  next
    case rec
    from "1.IH"[OF rec] show ?thesis by simp
  qed
qed

lemma retreat_j_le:
  "retreat_j arr pivot new_depth low j = Inr j' \<Longrightarrow> j' \<le> j \<and> (low \<le> j \<longrightarrow> low \<le> j')"
proof (induction arr pivot new_depth low j rule: retreat_j.induct)
  case (1 arr pivot new_depth low j)
  note eq = "1.prems"[unfolded retreat_j.simps[of arr pivot new_depth low j]]
  from eq consider (stop) "j' = j"
    | (rec) cmp where "low < j" "compare_skip (arr ! nat j) pivot new_depth = Inr cmp" "cmp > 0"
        "retreat_j arr pivot new_depth low (j - 1) = Inr j'"
    by (auto split: sum.splits if_splits)
  then show ?case
  proof cases
    case stop
    then show ?thesis by simp
  next
    case rec
    from "1.IH"[OF rec] rec(1) show ?thesis by simp
  qed
qed

text \<open>The outer \<^verbatim>\<open>while (i <= j)\<close> loop of the precursor's partition.\<close>

function naive_partition_loop ::
  "cstring list \<Rightarrow> cstring \<Rightarrow> int \<Rightarrow> int \<Rightarrow> int \<Rightarrow> int \<Rightarrow> int
     \<Rightarrow> error + (cstring list \<times> int \<times> int)" where
  "naive_partition_loop arr pivot new_depth low high i j =
     (if i \<le> j then
        (case advance_i arr pivot new_depth high i of
           Inl e \<Rightarrow> Inl e
         | Inr i1 \<Rightarrow>
             (case retreat_j arr pivot new_depth low j of
                Inl e \<Rightarrow> Inl e
              | Inr j1 \<Rightarrow>
                  if i1 \<le> j1
                  then naive_partition_loop (swap_strings arr i1 j1) pivot new_depth low high (i1 + 1) (j1 - 1)
                  else naive_partition_loop arr pivot new_depth low high i1 j1))
      else Inr (arr, i, j))"
  by pat_completeness auto
termination
proof (relation "measure (\<lambda>(arr, pivot, new_depth, low, high, i, j). nat (j + 1 - i))", goal_cases)
  case 1
  show ?case by simp
next
  case (2 arr pivot new_depth low high i j x2 x2a)
  then show ?case
    using advance_i_ge[of arr pivot new_depth high i x2] retreat_j_le[of arr pivot new_depth low j x2a]
    by simp
next
  case (3 arr pivot new_depth low high i j x2 x2a)
  then show ?case
    using advance_i_ge[of arr pivot new_depth high i x2] retreat_j_le[of arr pivot new_depth low j x2a]
    by simp
qed

declare naive_partition_loop.simps [simp del]

lemma naive_partition_loop_bounds:
  "naive_partition_loop arr pivot new_depth low high i j = Inr (arr', i', j') \<Longrightarrow> low < i \<Longrightarrow>
     (low \<le> j \<longrightarrow> low \<le> j') \<and> j' \<le> j \<and> i \<le> i' \<and> j' < i'"
proof (induction arr pivot new_depth low high i j rule: naive_partition_loop.induct)
  case (1 arr pivot new_depth low high i j)
  note eq = "1.prems"(1)[unfolded naive_partition_loop.simps[of arr pivot new_depth low high i j]]
  show ?case
  proof (cases "i \<le> j")
    case False
    with eq show ?thesis by simp
  next
    case True
    with eq obtain i1 where a: "advance_i arr pivot new_depth high i = Inr i1"
      by (auto split: sum.splits)
    with True eq obtain j1 where r: "retreat_j arr pivot new_depth low j = Inr j1"
      by (auto split: sum.splits)
    note ab = advance_i_ge[OF a] and rb = retreat_j_le[OF r]
    show ?thesis
    proof (cases "i1 \<le> j1")
      case le: True
      with True eq a r have
        "naive_partition_loop (swap_strings arr i1 j1) pivot new_depth low high (i1 + 1) (j1 - 1)
           = Inr (arr', i', j')"
        by simp
      from "1.IH"(1)[OF True a r le this] ab rb le "1.prems"(2) show ?thesis by simp
    next
      case gt: False
      with True eq a r have
        "naive_partition_loop arr pivot new_depth low high i1 j1 = Inr (arr', i', j')"
        by simp
      from "1.IH"(2)[OF True a r gt this] ab rb gt "1.prems"(2) True show ?thesis by simp
    qed
  qed
qed

text \<open>
  \<open>common_prefix_quicksort_recursive\<close>; \<open>rnd\<close> and \<open>c\<close> are \<open>rand()\<close> and the number of
  calls made to it, as in the cached variant.
\<close>

function common_prefix_quicksort_recursive ::
  "(nat \<Rightarrow> nat) \<Rightarrow> nat \<Rightarrow> cstring list \<Rightarrow> int \<Rightarrow> int \<Rightarrow> int \<Rightarrow> error + (cstring list \<times> nat)" where
  "common_prefix_quicksort_recursive rnd c arr low high depth =
     (if low \<ge> high then Inr (arr, c)
      else
        case get_common_prefix arr low high depth of
          Inl e \<Rightarrow> Inl e
        | Inr common \<Rightarrow>
            let new_depth = depth + common;
                pivot_idx = low + int (rnd c) mod (high - low + 1);
                arr1 = swap_strings arr low pivot_idx;
                pivot = arr1 ! nat low
            in case naive_partition_loop arr1 pivot new_depth low high (low + 1) high of
                 Inl e \<Rightarrow> Inl e
               | Inr (arr2, i, j) \<Rightarrow>
                   let arr3 = swap_strings arr2 low j
                   in case common_prefix_quicksort_recursive rnd (c + 1) arr3 low (j - 1) new_depth of
                        Inl e \<Rightarrow> Inl e
                      | Inr (arr4, c2) \<Rightarrow>
                          common_prefix_quicksort_recursive rnd c2 arr4 i high new_depth)"
  by pat_completeness auto
termination
proof (relation "measure (\<lambda>(rnd, c, arr, low, high, depth). nat (high - low))", goal_cases)
  case 1
  show ?case by simp
next
  case (2 rnd c arr low high depth common new_depth pivot_idx arr1 pivot x2 arr2 y i j arr3)
  then have "naive_partition_loop arr1 pivot new_depth low high (low + 1) high = Inr (arr2, i, j)"
    and "low < high"
    by simp_all
  from naive_partition_loop_bounds[OF this(1)] this(2) show ?case by simp
next
  case (3 rnd c arr low high depth common new_depth pivot_idx arr1 pivot x2 arr2 y i j arr3)
  then have "naive_partition_loop arr1 pivot new_depth low high (low + 1) high = Inr (arr2, i, j)"
    and "low < high"
    by simp_all
  from naive_partition_loop_bounds[OF this(1)] this(2) show ?case by simp
qed

declare common_prefix_quicksort_recursive.simps [simp del]

text \<open>\<open>legrand_sort\<close>; \<open>srand(time(NULL))\<close> decides which sequence \<open>rnd\<close> is.\<close>

definition legrand_sort :: "(nat \<Rightarrow> nat) \<Rightarrow> cstring list \<Rightarrow> error + cstring list" where
  "legrand_sort rnd arr =
     (case common_prefix_quicksort_recursive rnd 0 arr 0 (int (length arr) - 1) 0 of
        Inl e \<Rightarrow> Inl e
      | Inr (arr', c') \<Rightarrow> Inr arr')"

section \<open>Bytes of a window, most significant first\<close>

text \<open>
  What the specification says about a window is stated with three notions that are not in
  the code: \<open>bytes_of w\<close>, the eight bytes of a 64-bit value from the most significant
  one down; \<open>be_val\<close>, the number a byte list denotes when its first byte is the most
  significant; and \<open>window_bytes s d\<close>, the slice of at most eight bytes of \<open>s\<close> from
  offset \<open>d\<close>, filled up with zero bytes to length eight. \<open>load_window\<close> is the
  specification's name for what \<open>refresh_cache\<close> stores.
\<close>

lemma bswap64_alt:
  "bswap64 x =
     push_bit 56 (x AND mask 8) OR
     push_bit 40 (x AND push_bit 8 (mask 8)) OR
     push_bit 24 (x AND push_bit 16 (mask 8)) OR
     push_bit 8  (x AND push_bit 24 (mask 8)) OR
     drop_bit 8  (x AND push_bit 32 (mask 8)) OR
     drop_bit 24 (x AND push_bit 40 (mask 8)) OR
     drop_bit 40 (x AND push_bit 48 (mask 8)) OR
     drop_bit 56 (x AND push_bit 56 (mask 8))"
  by (simp add: bswap64_def mask_eq_exp_minus_1 push_bit_eq_mult)

lemma bit_bswap64:
  assumes q: "q < 8" and r: "r < 8"
  shows "bit (bswap64 x) (8 * q + r) \<longleftrightarrow> bit x (8 * (7 - q) + r)"
proof -
  from q consider "q = 0" | "q = 1" | "q = 2" | "q = 3" | "q = 4" | "q = 5" | "q = 6" | "q = 7"
    by linarith
  then show ?thesis
  proof cases
    case 1 with r show ?thesis by (simp add: bswap64_alt bit_simps)
  next
    case 2 with r show ?thesis by (simp add: bswap64_alt bit_simps)
  next
    case 3 with r show ?thesis by (simp add: bswap64_alt bit_simps)
  next
    case 4 with r show ?thesis by (simp add: bswap64_alt bit_simps)
  next
    case 5 with r show ?thesis by (simp add: bswap64_alt bit_simps)
  next
    case 6 with r show ?thesis by (simp add: bswap64_alt bit_simps)
  next
    case 7 with r show ?thesis by (simp add: bswap64_alt bit_simps)
  next
    case 8 with r show ?thesis by (simp add: bswap64_alt bit_simps)
  qed
qed

lemma bit_load_le:
  assumes r: "r < 8"
  shows "bit (load_le bs) (8 * q + r) \<longleftrightarrow> q < 8 \<and> q < length bs \<and> bit (bs ! q) r"
proof (induction bs arbitrary: q)
  case Nil
  then show ?case by simp
next
  case (Cons b bs)
  show ?case
  proof (cases q)
    case 0
    with r show ?thesis by (simp add: bit_simps)
  next
    case (Suc q')
    have "\<not> bit b (8 * q + r)"
      using bit_imp_le_length[of b "8 * q + r"] Suc by auto
    then show ?thesis
      using Suc r Cons.IH[of q'] by (auto simp add: bit_simps)
  qed
qed

definition bytes_of :: "64 word \<Rightarrow> byte list" where
  "bytes_of w = map (\<lambda>k. ucast (drop_bit (8 * (7 - k)) w)) [0..<8]"

lemma length_bytes_of [simp]: "length (bytes_of w) = 8"
  by (simp add: bytes_of_def)

lemma bit_bytes_of:
  "k < 8 \<Longrightarrow> bit (bytes_of w ! k) r \<longleftrightarrow> r < 8 \<and> bit w (8 * (7 - k) + r)"
  by (simp add: bytes_of_def bit_simps)

lemma bytes_of_bswap64_load_le:
  assumes "length bs = 8"
  shows "bytes_of (bswap64 (load_le bs)) = bs"
proof (rule nth_equalityI)
  show "length (bytes_of (bswap64 (load_le bs))) = length bs"
    using assms by simp
next
  fix k assume "k < length (bytes_of (bswap64 (load_le bs)))"
  then have k: "k < 8" by simp
  show "bytes_of (bswap64 (load_le bs)) ! k = bs ! k"
  proof (rule bit_eqI)
    fix r
    show "bit (bytes_of (bswap64 (load_le bs)) ! k) r = bit (bs ! k) r"
    proof (cases "r < 8")
      case True
      have "bit (bswap64 (load_le bs)) (8 * (7 - k) + r) = bit (load_le bs) (8 * (7 - (7 - k)) + r)"
        using k True by (intro bit_bswap64) auto
      also have "7 - (7 - k) = k" using k by simp
      finally show ?thesis
        using k True assms by (simp add: bit_bytes_of bit_load_le)
    next
      case False
      then show ?thesis
        using k bit_imp_le_length[of "bs ! k" r] by (auto simp add: bit_bytes_of)
    qed
  qed
qed


fun be_val :: "byte list \<Rightarrow> nat" where
  "be_val [] = 0"
| "be_val (b # bs) = unat b * 256 ^ length bs + be_val bs"

lemma be_val_less: "be_val bs < 256 ^ length bs"
proof (induction bs)
  case Nil
  show ?case by simp
next
  case (Cons b bs)
  have "unat b \<le> 255" using unsigned_less[of b, where 'a = nat] by simp
  then have "unat b * 256 ^ length bs \<le> 255 * 256 ^ length bs"
    by (rule mult_le_mono1)
  with Cons.IH have "unat b * 256 ^ length bs + be_val bs < 255 * 256 ^ length bs + 256 ^ length bs"
    by (rule add_le_less_mono[rotated])
  then show ?case by simp
qed

lemma be_val_less_iff:
  "length xs = length ys \<Longrightarrow> be_val xs < be_val ys \<longleftrightarrow> ord_class.lexordp xs ys"
proof (induction xs ys rule: list_induct2)
  case Nil
  show ?case by simp
next
  case (Cons x xs y ys)
  let ?B = "256 ^ length ys :: nat"
  have vx: "be_val xs < ?B" using be_val_less[of xs] Cons.hyps by simp
  have vy: "be_val ys < ?B" by (rule be_val_less)
  have "unat x * ?B + be_val xs < unat y * ?B + be_val ys \<longleftrightarrow>
          unat x < unat y \<or> (unat x = unat y \<and> be_val xs < be_val ys)"
  proof (cases "unat x < unat y")
    case True
    then have "Suc (unat x) * ?B \<le> unat y * ?B"
      by (intro mult_le_mono1) simp
    with vx True show ?thesis by simp
  next
    case False
    show ?thesis
    proof (cases "unat x = unat y")
      case True
      then show ?thesis by simp
    next
      case neq: False
      with False have "unat y < unat x" by simp
      then have "Suc (unat y) * ?B \<le> unat x * ?B"
        by (intro mult_le_mono1) simp
      with vy False neq show ?thesis by simp
    qed
  qed
  then show ?case
    using Cons.hyps Cons.IH
    by (auto simp add: word_less_nat_alt word_unat_eq_iff)
qed

lemma be_val_eq_iff:
  "length xs = length ys \<Longrightarrow> be_val xs = be_val ys \<longleftrightarrow> xs = ys"
proof
  assume len: "length xs = length ys" and eq: "be_val xs = be_val ys"
  show "xs = ys"
  proof (rule ccontr)
    assume "xs \<noteq> ys"
    with len have "ord_class.lexordp xs ys \<or> ord_class.lexordp ys xs"
      using lexordp_linear[of xs ys] by auto
    with len eq show False
      using be_val_less_iff[of xs ys] be_val_less_iff[of ys xs] by auto
  qed
qed simp

lemma be_val_digits:
  "j \<le> n \<Longrightarrow>
     be_val (map (\<lambda>k. (of_nat (x div 256 ^ (n - 1 - k) mod 256) :: byte)) [n - j..<n]) = x mod 256 ^ j"
proof (induction j)
  case 0
  show ?case by simp
next
  case (Suc j)
  then have "[n - Suc j..<n] = (n - Suc j) # [n - j..<n]"
    by (simp add: upt_conv_Cons Suc_diff_Suc)
  moreover have "n - 1 - (n - Suc j) = j" using Suc.prems by simp
  moreover have "unat (of_nat (x div 256 ^ j mod 256) :: byte) = x div 256 ^ j mod 256"
    by (simp add: unat_of_nat)
  moreover have "x mod 256 ^ Suc j = (x div 256 ^ j mod 256) * 256 ^ j + x mod 256 ^ j"
    using mod_mult2_eq[of x "256 ^ j" 256] by (simp add: mult.commute)
  ultimately show ?case
    using Suc by simp
qed

lemma bytes_of_digits:
  "bytes_of w = map (\<lambda>k. (of_nat (unat w div 256 ^ (8 - 1 - k) mod 256) :: byte)) [8 - 8..<8]"
proof -
  have "(ucast (drop_bit (8 * (7 - k)) w) :: byte) = of_nat (unat w div 256 ^ (7 - k) mod 256)" for k
  proof -
    have "(256::nat) ^ (7 - k) = 2 ^ (8 * (7 - k))"
      by (simp add: power_mult)
    moreover have "unat (ucast (drop_bit (8 * (7 - k)) w) :: byte) = take_bit 8 (drop_bit (8 * (7 - k)) (unat w))"
      by (simp add: unsigned_ucast_eq unat_drop_bit_eq)
    ultimately show ?thesis
      by (simp add: word_unat_eq_iff unat_of_nat take_bit_eq_mod drop_bit_eq_div)
  qed
  then show ?thesis
    by (simp add: bytes_of_def)
qed

lemma be_val_bytes_of: "be_val (bytes_of w) = unat w"
proof -
  have "be_val (bytes_of w) = unat w mod 256 ^ 8"
    unfolding bytes_of_digits by (rule be_val_digits) simp
  also have "\<dots> = unat w"
    using unsigned_less[of w, where 'a = nat] by simp
  finally show ?thesis .
qed

lemma word_less_iff_bytes: "w1 < w2 \<longleftrightarrow> ord_class.lexordp (bytes_of w1) (bytes_of w2)"
  by (simp add: word_less_nat_alt flip: be_val_bytes_of be_val_less_iff)

lemma word_eq_iff_bytes: "w1 = w2 \<longleftrightarrow> bytes_of w1 = bytes_of w2"
proof
  assume "bytes_of w1 = bytes_of w2"
  then have "be_val (bytes_of w1) = be_val (bytes_of w2)" by simp
  then show "w1 = w2" by (simp add: be_val_bytes_of word_unat_eq_iff)
qed simp


definition window_bytes :: "cstring \<Rightarrow> int \<Rightarrow> byte list" where
  "window_bytes s d = (let sl = take 8 (drop (nat d) s) in sl @ replicate (8 - length sl) 0)"

definition load_window :: "cstring \<Rightarrow> int \<Rightarrow> 64 word" where
  "load_window s d = cache (refresh_cache \<lparr>ptr = s, cache = 0\<rparr> d)"

lemma strlen_nul_free: "nul_free s \<Longrightarrow> strlen s = length s"
proof -
  assume "nul_free s"
  then have "takeWhile (\<lambda>b. b \<noteq> 0) s = s"
    by (intro takeWhile_eq_all_conv[THEN iffD2]) (auto simp add: nul_free_def)
  then show ?thesis by (simp only: strlen_def)
qed

lemma length_window_bytes [simp]: "length (window_bytes s d) = 8"
  by (simp add: window_bytes_def Let_def)

lemma bytes_of_0: "bytes_of 0 = replicate 8 0"
  by (rule nth_equalityI) (simp_all add: bytes_of_def)

lemma cache_refresh_cache: "cache (refresh_cache item d) = load_window (ptr item) d"
  by (simp add: refresh_cache_def load_window_def Let_def)

lemma load_window_past_end: "d < 0 \<or> int (strlen s) \<le> d \<Longrightarrow> load_window s d = 0"
  by (auto simp add: load_window_def refresh_cache_def Let_def)

lemma bytes_of_load_window:
  assumes "nul_free s" "0 \<le> d"
  shows "bytes_of (load_window s d) = window_bytes s d"
proof (cases "int (length s) \<le> d")
  case True
  then have "drop (nat d) s = []" by simp
  with True assms show ?thesis
    by (simp add: load_window_past_end strlen_nul_free bytes_of_0 window_bytes_def)
next
  case False
  let ?rem = "length s - nat d"
  let ?n = "if ?rem < 8 then ?rem else 8"
  let ?buf = "take ?n (drop (nat d) s) @ replicate (8 - ?n) 0"
  have n: "length (take 8 (drop (nat d) s)) = ?n" by auto
  have "take ?n (drop (nat d) s) = take 8 (drop (nat d) s)" by auto
  with n have buf: "?buf = window_bytes s d"
    by (simp only: window_bytes_def Let_def)
  have "load_window s d = bswap64 (load_le ?buf)"
    using False assms by (simp add: load_window_def refresh_cache_def Let_def strlen_nul_free)
  then show ?thesis
    unfolding buf by (simp add: bytes_of_bswap64_load_le)
qed

section \<open>Leading zero bits\<close>

text \<open>
  \<open>leading_zero_bits\<close> is the specification's \<open>count_leading_zero_bits\<close>: the number
  of bit positions, from bit 63 downwards, in front of the first set bit.
  \<open>common_prefix_len\<close> counts the leading positions on which two byte lists agree.
  \<open>top_bits\<close> and \<open>clz_inv\<close> serve the proof that the binary search of \<open>clz64\<close>
  computes \<open>leading_zero_bits\<close>.
\<close>

definition top_bits :: "nat \<Rightarrow> 64 word" where
  "top_bits sh = push_bit (64 - sh) (mask sh)"

lemma top_bits_numerals:
  "0xFFFFFFFF00000000 = top_bits 32"
  "0xFFFF000000000000 = top_bits 16"
  "0xFF00000000000000 = top_bits 8"
  "0xF000000000000000 = top_bits 4"
  "0xC000000000000000 = top_bits 2"
  "0x8000000000000000 = top_bits 1"
  by (simp_all add: top_bits_def mask_eq_exp_minus_1 push_bit_eq_mult)

lemma and_top_bits_eq_0_iff:
  assumes "sh \<le> 64"
  shows "y AND top_bits sh = 0 \<longleftrightarrow> (\<forall>m. 64 - sh \<le> m \<and> m < 64 \<longrightarrow> \<not> bit y m)"
proof -
  have "m - (64 - sh) < sh" if "64 - sh \<le> m" "m < 64" for m
    using that assms by linarith
  then show ?thesis
    by (auto simp add: bit_eq_iff top_bits_def bit_simps)
qed

definition clz_inv :: "64 word \<Rightarrow> nat \<Rightarrow> int \<times> 64 word \<Rightarrow> bool" where
  "clz_inv x k = (\<lambda>(n, y). 0 \<le> n \<and> y = push_bit (nat n) x \<and>
      (\<forall>m. 64 \<le> m + nat n \<longrightarrow> \<not> bit x m) \<and> (\<exists>m. k \<le> m \<and> m < 64 \<and> bit y m))"

lemma clz_step_inv:
  assumes inv: "clz_inv x (64 - 2 * sh) s" and sh: "0 < sh" "2 * sh \<le> 64"
  shows "clz_inv x (64 - sh) (clz_step (top_bits sh) sh s)"
proof -
  obtain n y where s: "s = (n, y)" by (cases s)
  from inv s have n: "0 \<le> n" and y: "y = push_bit (nat n) x"
    and top: "\<And>m. 64 \<le> m + nat n \<Longrightarrow> \<not> bit x m"
    by (auto simp add: clz_inv_def)
  from inv s obtain m0 where m0: "64 - 2 * sh \<le> m0" "m0 < 64" "bit y m0"
    by (auto simp add: clz_inv_def)
  show ?thesis
  proof (cases "y AND top_bits sh = 0")
    case False
    then obtain m where "64 - sh \<le> m" "m < 64" "bit y m"
      using and_top_bits_eq_0_iff[of sh y] sh by auto
    with False n y top show ?thesis
      by (auto simp add: s clz_step_def clz_inv_def)
  next
    case True
    then have zero: "\<And>m. 64 - sh \<le> m \<Longrightarrow> m < 64 \<Longrightarrow> \<not> bit y m"
      using and_top_bits_eq_0_iff[of sh y] sh by auto
    from m0 zero[of m0] have m0_lt: "m0 < 64 - sh" by force
    from m0 y have "nat n \<le> m0" and x_m0: "bit x (m0 - nat n)"
      by (auto simp add: bit_simps)
    have step: "clz_step (top_bits sh) sh s = (n + int sh, push_bit sh y)"
      using True by (simp add: s clz_step_def)
    have 1: "push_bit sh y = push_bit (nat (n + int sh)) x"
      using n by (simp add: y push_bit_push_bit nat_add_distrib add.commute)
    have 2: "\<not> bit x m" if "64 \<le> m + nat (n + int sh)" for m
    proof (cases "64 \<le> m + nat n")
      case True
      then show ?thesis by (rule top)
    next
      case False
      with that n have "64 - sh \<le> m + nat n" "m + nat n < 64"
        by (simp_all add: nat_add_distrib)
      from zero[OF this] \<open>m + nat n < 64\<close> show ?thesis
        by (simp add: y bit_simps)
    qed
    have 3: "bit (push_bit sh y) (m0 + sh)"
      using m0 m0_lt by (simp add: bit_simps)
    have "64 - sh \<le> m0 + sh" "m0 + sh < 64"
      using m0 m0_lt sh by linarith+
    with 1 2 3 n show ?thesis
      unfolding step clz_inv_def by auto
  qed
qed

text \<open>For \<open>x \<noteq> 0\<close>, \<open>clz64 x\<close> is 63 minus the position of the highest set bit.\<close>

lemma clz64_highest_bit:
  assumes "x \<noteq> 0"
  shows "0 \<le> clz64 x \<and> clz64 x \<le> 63 \<and> bit x (63 - nat (clz64 x)) \<and>
         (\<forall>m. 63 - nat (clz64 x) < m \<longrightarrow> \<not> bit x m)"
proof -
  define s1 where "s1 = clz_step (top_bits 32) 32 (0, x)"
  define s2 where "s2 = clz_step (top_bits 16) 16 s1"
  define s3 where "s3 = clz_step (top_bits 8) 8 s2"
  define s4 where "s4 = clz_step (top_bits 4) 4 s3"
  define s5 where "s5 = clz_step (top_bits 2) 2 s4"
  from assms obtain m where "bit x m" by (auto simp add: bit_eq_iff)
  moreover from this have "m < 64" using bit_imp_le_length[of x m] by simp
  moreover have "\<not> bit x k" if "64 \<le> k" for k
    using bit_imp_le_length[of x k] that by auto
  ultimately have "clz_inv x (64 - 2 * 32) (0, x)"
    by (auto simp add: clz_inv_def)
  then have "clz_inv x (64 - 32) s1"
    unfolding s1_def by (rule clz_step_inv) simp_all
  then have "clz_inv x (64 - 2 * 16) s1" by simp
  then have "clz_inv x (64 - 16) s2"
    unfolding s2_def by (rule clz_step_inv) simp_all
  then have "clz_inv x (64 - 2 * 8) s2" by simp
  then have "clz_inv x (64 - 8) s3"
    unfolding s3_def by (rule clz_step_inv) simp_all
  then have "clz_inv x (64 - 2 * 4) s3" by simp
  then have "clz_inv x (64 - 4) s4"
    unfolding s4_def by (rule clz_step_inv) simp_all
  then have "clz_inv x (64 - 2 * 2) s4" by simp
  then have inv5: "clz_inv x (64 - 2) s5"
    unfolding s5_def by (rule clz_step_inv) simp_all
  obtain n y where s5: "s5 = (n, y)" by (cases s5)
  from inv5 s5 have n: "0 \<le> n" and y: "y = push_bit (nat n) x"
    and top: "\<And>m. 64 \<le> m + nat n \<Longrightarrow> \<not> bit x m"
    and "\<exists>m. 62 \<le> m \<and> m < 64 \<and> bit y m"
    by (auto simp add: clz_inv_def)
  then obtain m0 where m0: "62 \<le> m0" "m0 < 64" "bit y m0" by blast
  have clz: "clz64 x = (if y AND top_bits 1 = 0 then n + 1 else n)"
    using assms s5
    by (simp add: clz64_def top_bits_numerals Let_def
          flip: s1_def s2_def s3_def s4_def s5_def)
  have test: "y AND top_bits 1 = 0 \<longleftrightarrow> \<not> bit y 63"
  proof -
    have "(64 - 1 \<le> m \<and> m < 64) = (m = 63)" for m :: nat by auto
    then show ?thesis using and_top_bits_eq_0_iff[of 1 y] by simp
  qed
  show ?thesis
  proof (cases "bit y 63")
    case True
    then have "nat n \<le> 63" "bit x (63 - nat n)"
      by (auto simp add: y bit_simps)
    moreover have "\<not> bit x m" if "63 - nat n < m" for m
      using that top[of m] by auto
    ultimately show ?thesis
      using True n clz test by auto
  next
    case False
    with m0 have "m0 = 62"
      by (cases "m0 = 63") auto
    with m0 have "nat n \<le> 62" "bit x (62 - nat n)"
      by (auto simp add: y bit_simps)
    moreover have "\<not> bit x m" if "62 - nat n < m" for m
    proof (cases "64 \<le> m + nat n")
      case True
      then show ?thesis by (rule top)
    next
      case F: False
      with that \<open>nat n \<le> 62\<close> have "m + nat n = 63" by linarith
      then have "m = 63 - nat n" "nat n \<le> 63" by simp_all
      with False show ?thesis
        by (simp add: y bit_simps)
    qed
    moreover have "63 - nat (n + 1) = 62 - nat n"
      using n by (simp add: nat_add_distrib)
    ultimately show ?thesis
      using False n clz test by auto
  qed
qed


definition leading_zero_bits :: "64 word \<Rightarrow> nat" where
  "leading_zero_bits x = length (takeWhile (\<lambda>k. \<not> bit x k) (rev [0..<64]))"

fun common_prefix_len :: "byte list \<Rightarrow> byte list \<Rightarrow> nat" where
  "common_prefix_len (x # xs) (y # ys) = (if x = y then Suc (common_prefix_len xs ys) else 0)"
| "common_prefix_len xs ys = 0"

lemma leading_zero_bits_highest:
  assumes h: "h < 64" "bit x h" and above: "\<And>m. h < m \<Longrightarrow> \<not> bit x m"
  shows "leading_zero_bits x = 63 - h"
proof -
  have "[0..<h + (64 - h)] = [0..<h] @ [h..<h + (64 - h)]"
    by (rule upt_add_eq_append) simp
  moreover have "[h..<64] = h # [Suc h..<64]"
    using h(1) by (rule upt_conv_Cons)
  ultimately have "[0..<64] = [0..<h] @ h # [Suc h..<64]"
    using h(1) by simp
  then have "rev [0..<64] = rev [Suc h..<64] @ h # rev [0..<h]"
    by simp
  moreover have "takeWhile (\<lambda>k. \<not> bit x k) (rev [Suc h..<64] @ h # rev [0..<h]) = rev [Suc h..<64]"
    using h(2) above by (subst takeWhile_append2) auto
  ultimately show ?thesis
    by (simp add: leading_zero_bits_def)
qed

lemma clz64_eq_leading_zero_bits: "clz64 x = int (leading_zero_bits x)"
proof (cases "x = 0")
  case True
  have "takeWhile (\<lambda>k. \<not> bit (0 :: 64 word) k) (rev [0..<64]) = rev [0..<64]"
    by (rule takeWhile_eq_all_conv[THEN iffD2]) simp
  then have "leading_zero_bits 0 = 64"
    by (simp only: leading_zero_bits_def length_rev length_upt)
  with True show ?thesis by (simp add: clz64_def)
next
  case False
  from clz64_highest_bit[OF False]
  have c: "0 \<le> clz64 x" "clz64 x \<le> 63" "bit x (63 - nat (clz64 x))"
    "\<And>m. 63 - nat (clz64 x) < m \<Longrightarrow> \<not> bit x m"
    by auto
  have "leading_zero_bits x = 63 - (63 - nat (clz64 x))"
    using c by (intro leading_zero_bits_highest) auto
  with c show ?thesis by simp
qed

lemma common_prefix_len_eq:
  "q < length xs \<Longrightarrow> q < length ys \<Longrightarrow> (\<And>k. k < q \<Longrightarrow> xs ! k = ys ! k) \<Longrightarrow> xs ! q \<noteq> ys ! q
     \<Longrightarrow> common_prefix_len xs ys = q"
proof (induction xs ys arbitrary: q rule: common_prefix_len.induct)
  case (1 x xs y ys)
  show ?case
  proof (cases q)
    case 0
    with "1.prems" show ?thesis by simp
  next
    case (Suc q')
    with "1.prems"(3)[of 0] have xy: "x = y" by simp
    have "common_prefix_len xs ys = q'"
    proof (rule "1.IH"[OF xy])
      show "q' < length xs" "q' < length ys" using "1.prems" Suc by simp_all
      show "xs ! k = ys ! k" if "k < q'" for k
        using "1.prems"(3)[of "Suc k"] that Suc by simp
      show "xs ! q' \<noteq> ys ! q'" using "1.prems"(4) Suc by simp
    qed
    with xy Suc show ?thesis by simp
  qed
qed simp_all

lemma clz64_xor_common_bytes:
  assumes "a \<noteq> b"
  shows "clz64 (a XOR b) div 8 = int (common_prefix_len (bytes_of a) (bytes_of b))"
    and "0 \<le> clz64 (a XOR b) div 8" and "clz64 (a XOR b) div 8 \<le> 7"
proof -
  let ?x = "a XOR b"
  have "?x \<noteq> 0"
  proof
    assume z: "?x = 0"
    have "bit a m = bit b m" for m
    proof -
      from z have "bit ?x m = bit (0 :: 64 word) m" by simp
      then show ?thesis by (simp add: bit_xor_iff)
    qed
    then have "a = b" by (rule bit_eqI)
    with assms show False by simp
  qed
  define n where "n = nat (clz64 ?x)"
  from clz64_highest_bit[OF \<open>?x \<noteq> 0\<close>]
  have n: "clz64 ?x = int n" "n \<le> 63"
    and diff: "bit ?x (63 - n)" and same: "\<And>m. 63 - n < m \<Longrightarrow> \<not> bit ?x m"
    by (auto simp add: n_def)
  let ?q = "n div 8"
  have q: "?q < 8" using n by simp
  have agree: "bytes_of a ! k = bytes_of b ! k" if "k < ?q" for k
  proof (rule bit_eqI)
    fix r
    show "bit (bytes_of a ! k) r = bit (bytes_of b ! k) r"
    proof (cases "r < 8")
      case True
      from that q have "63 - n < 8 * (7 - k) + r" by linarith
      from same[OF this] show ?thesis
        using that q by (simp add: bit_bytes_of bit_simps)
    next
      case False
      then show ?thesis using that q by (simp add: bit_bytes_of)
    qed
  qed
  have "63 - n = 8 * (7 - ?q) + (7 - n mod 8)"
    using n by presburger
  with diff have "bit a (8 * (7 - ?q) + (7 - n mod 8)) \<noteq> bit b (8 * (7 - ?q) + (7 - n mod 8))"
    by (simp add: bit_simps)
  moreover have "7 - n mod 8 < 8" by simp
  ultimately have "bit (bytes_of a ! ?q) (7 - n mod 8) \<noteq> bit (bytes_of b ! ?q) (7 - n mod 8)"
    using q by (simp add: bit_bytes_of)
  then have differ: "bytes_of a ! ?q \<noteq> bytes_of b ! ?q" by auto
  have "common_prefix_len (bytes_of a) (bytes_of b) = ?q"
    using q agree differ by (intro common_prefix_len_eq) simp_all
  then show "clz64 (a XOR b) div 8 = int (common_prefix_len (bytes_of a) (bytes_of b))"
    by (simp add: n zdiv_int)
  show "0 \<le> clz64 (a XOR b) div 8" "clz64 (a XOR b) div 8 \<le> 7"
    using n by simp_all
qed

section \<open>The byte window loader (C4)\<close>

text \<open>
  Claim C4. For a NUL-free string \<open>s\<close> and a depth \<open>d \<ge> 0\<close>, \<open>refresh_cache\<close> stores
  \<open>load_window s d\<close>, which is 0 when \<open>d\<close> is at or past the length of \<open>s\<close> and is
  otherwise (and then too) the zero-padded 8-byte slice of \<open>s\<close> from \<open>d\<close>, packed with
  the first byte most significant. So for two NUL-free strings, comparing the windows as
  unsigned 64-bit integers is comparing the two padded slices lexicographically, byte by
  unsigned byte.
\<close>

theorem load_window_correct:
  assumes "nul_free s" and "nul_free t" and "0 \<le> d"
  shows "cache (refresh_cache \<lparr>ptr = s, cache = c\<rparr> d) = load_window s d \<and>
         (int (length s) \<le> d \<longrightarrow> load_window s d = 0) \<and>
         bytes_of (load_window s d) = window_bytes s d \<and>
         unat (load_window s d) = be_val (window_bytes s d) \<and>
         (load_window s d < load_window t d \<longleftrightarrow>
            ord_class.lexordp (window_bytes s d) (window_bytes t d)) \<and>
         (load_window s d = load_window t d \<longleftrightarrow> window_bytes s d = window_bytes t d)"
proof -
  have s: "bytes_of (load_window s d) = window_bytes s d"
    and t: "bytes_of (load_window t d) = window_bytes t d"
    using assms by (simp_all add: bytes_of_load_window)
  have "cache (refresh_cache \<lparr>ptr = s, cache = c\<rparr> d) = load_window s d"
    using cache_refresh_cache[of "\<lparr>ptr = s, cache = c\<rparr>" d] by simp
  moreover have "int (length s) \<le> d \<longrightarrow> load_window s d = 0"
    using assms by (simp add: load_window_past_end strlen_nul_free)
  moreover have "unat (load_window s d) = be_val (window_bytes s d)"
    using be_val_bytes_of[of "load_window s d"] by (simp add: s)
  moreover have "load_window s d < load_window t d \<longleftrightarrow>
      ord_class.lexordp (window_bytes s d) (window_bytes t d)"
    using word_less_iff_bytes[of "load_window s d" "load_window t d"] by (simp add: s t)
  moreover have "load_window s d = load_window t d \<longleftrightarrow> window_bytes s d = window_bytes t d"
    using word_eq_iff_bytes[of "load_window s d" "load_window t d"] by (simp add: s t)
  ultimately show ?thesis using s by blast
qed

theorem load_window_correct_witness:
  "nul_free [97, 98] \<and> nul_free [97, 99, 100] \<and> (0::int) \<le> 1 \<and>
   bytes_of (load_window [97, 98] 1) = [98, 0, 0, 0, 0, 0, 0, 0] \<and>
   unat (load_window [97, 98] 1) = 98 * 256 ^ 7 \<and>
   load_window [97, 98] 1 < load_window [97, 99, 100] 1"
proof -
  have r: "replicate 7 (0::byte) = [0, 0, 0, 0, 0, 0, 0]"
    by (simp add: eval_nat_numeral)
  show ?thesis
    using load_window_correct[of "[97, 98]" "[97, 99, 100]" 1 0]
    by (simp add: nul_free_def window_bytes_def r)
qed

section \<open>The comparator's fast path (C5)\<close>

text \<open>
  Claim C5. When the windows of \<open>a\<close> and \<open>b\<close> differ, \<open>compare_and_count\<close> returns
  (it reads no string byte) with \<open>match_len\<close> equal to the number of leading zero bits of
  \<open>a.window XOR b.window\<close> divided by 8; that number lies in \<open>0..7\<close> and is exactly the
  number of leading bytes on which the two windows agree; the comparison result is negative
  exactly when \<open>a.window < b.window\<close> as unsigned 64-bit integers, and positive exactly
  when \<open>a.window > b.window\<close>.
\<close>

theorem compare_and_count_fast_path:
  assumes "cache a \<noteq> cache b"
  shows "\<exists>cmp match_len. compare_and_count a b depth = Inr (cmp, match_len) \<and>
           match_len = int (leading_zero_bits (cache a XOR cache b)) div 8 \<and>
           0 \<le> match_len \<and> match_len \<le> 7 \<and>
           match_len = int (common_prefix_len (bytes_of (cache a)) (bytes_of (cache b))) \<and>
           (cmp < 0 \<longleftrightarrow> cache a < cache b) \<and> (0 < cmp \<longleftrightarrow> cache b < cache a)"
proof -
  have "compare_and_count a b depth =
      Inr (if cache a < cache b then - 1 else 1, clz64 (cache a XOR cache b) div 8)"
    using assms by (simp add: compare_and_count_def Let_def)
  moreover have "\<not> cache a < cache b \<longleftrightarrow> cache b < cache a"
    using assms by auto
  ultimately show ?thesis
    using clz64_xor_common_bytes[OF assms]
    by (auto simp add: clz64_eq_leading_zero_bits)
qed

theorem compare_and_count_fast_path_witness:
  "cache (make_item [97, 98]) \<noteq> cache (make_item [97, 99]) \<and>
   (\<exists>cmp match_len. compare_and_count (make_item [97, 98]) (make_item [97, 99]) 0 = Inr (cmp, match_len) \<and>
      0 \<le> match_len \<and> match_len \<le> 7 \<and> cmp < 0)"
proof -
  have neq: "cache (make_item [97, 98]) \<noteq> cache (make_item [97, 99])"
    by code_simp
  have less: "cache (make_item [97, 98]) < cache (make_item [97, 99])"
    by code_simp
  from compare_and_count_fast_path[OF neq, of 0] less neq show ?thesis
    by blast
qed

section \<open>What a partition and a sort leave in place\<close>

lemma length_swap_items [simp]: "length (swap_items arr a b) = length arr"
  by (simp add: swap_items_def Let_def)

lemma nth_swap_items:
  assumes "0 \<le> a" "a < int (length arr)" "0 \<le> b" "b < int (length arr)" "0 \<le> k"
  shows "swap_items arr a b ! nat k =
           (if k = b then arr ! nat a else if k = a then arr ! nat b else arr ! nat k)"
  using assms by (auto simp add: swap_items_def Let_def nth_list_update)

declare scan_equal.simps [simp del]

lemma scan_equal_ge: "scan_equal s1 s2 off k = Inr k' \<Longrightarrow> k \<le> k'"
proof (induction s1 s2 off k rule: scan_equal.induct)
  case (1 s1 s2 off k)
  note eq = "1.prems"[unfolded scan_equal.simps[of s1 s2 off k]]
  from eq consider (stop) "k' = k"
    | (rec) c1 c2 where "read_byte s1 (off + k) = Inr c1" "c1 \<noteq> 0"
        "read_byte s2 (off + k) = Inr c2" "c2 \<noteq> 0" "c1 = c2"
        "scan_equal s1 s2 off (k + 1) = Inr k'"
    by (auto split: sum.splits if_splits)
  then show ?case
  proof cases
    case stop
    then show ?thesis by simp
  next
    case rec
    from "1.IH"[OF rec(1,2,3,4,5,6)] show ?thesis by simp
  qed
qed

lemma clz64_nonneg: "0 \<le> clz64 x"
  by (simp add: clz64_eq_leading_zero_bits)

lemma compare_and_count_match_len_nonneg:
  assumes "compare_and_count a b depth = Inr (cmp, ml)"
  shows "0 \<le> ml"
proof (cases "cache a = cache b")
  case False
  with assms have "ml = clz64 (cache a XOR cache b) div 8"
    by (auto simp add: compare_and_count_def Let_def)
  with clz64_nonneg[of "cache a XOR cache b"] show ?thesis by simp
next
  case True
  with assms obtain k where "scan_equal (ptr a) (ptr b) (depth + 8) 0 = Inr k" "ml = 8 + k"
    by (auto simp add: compare_and_count_def split: sum.splits)
  with scan_equal_ge[of "ptr a" "ptr b" "depth + 8" 0 k] show ?thesis by simp
qed

lemma scan_left_mc:
  "scan_left arr pivot depth i j mc = Inr (i', mc') \<Longrightarrow> 0 \<le> mc \<Longrightarrow> 0 \<le> mc'"
proof (induction arr pivot depth i j mc rule: scan_left.induct)
  case (1 arr pivot depth i j mc)
  note eq = "1.prems"(1)[unfolded scan_left.simps[of arr pivot depth i j mc]]
  show ?case
  proof (cases "i \<le> j")
    case False
    with eq "1.prems"(2) show ?thesis by simp
  next
    case True
    with eq obtain cmp ml where
      c: "compare_and_count (arr ! nat i) pivot depth = Inr (cmp, ml)"
      by (auto split: sum.splits)
    let ?mc = "if ml < mc then ml else mc"
    have mc: "0 \<le> ?mc"
      using compare_and_count_match_len_nonneg[OF c] "1.prems"(2) by simp
    show ?thesis
    proof (cases "cmp \<ge> 0")
      case True
      with \<open>i \<le> j\<close> c eq mc show ?thesis by (simp add: Let_def)
    next
      case False
      with \<open>i \<le> j\<close> c eq have "scan_left arr pivot depth (i + 1) j ?mc = Inr (i', mc')"
        by (simp add: Let_def)
      from "1.IH"[OF \<open>i \<le> j\<close> c refl refl False this mc] show ?thesis .
    qed
  qed
qed

lemma scan_right_mc:
  "scan_right arr pivot depth i j mc = Inr (j', mc') \<Longrightarrow> 0 \<le> mc \<Longrightarrow> 0 \<le> mc'"
proof (induction arr pivot depth i j mc rule: scan_right.induct)
  case (1 arr pivot depth i j mc)
  note eq = "1.prems"(1)[unfolded scan_right.simps[of arr pivot depth i j mc]]
  show ?case
  proof (cases "i \<le> j")
    case False
    with eq "1.prems"(2) show ?thesis by simp
  next
    case True
    with eq obtain cmp ml where
      c: "compare_and_count (arr ! nat j) pivot depth = Inr (cmp, ml)"
      by (auto split: sum.splits)
    let ?mc = "if ml < mc then ml else mc"
    have mc: "0 \<le> ?mc"
      using compare_and_count_match_len_nonneg[OF c] "1.prems"(2) by simp
    show ?thesis
    proof (cases "cmp \<le> 0")
      case True
      with \<open>i \<le> j\<close> c eq mc show ?thesis by (simp add: Let_def)
    next
      case False
      with \<open>i \<le> j\<close> c eq have "scan_right arr pivot depth i (j - 1) ?mc = Inr (j', mc')"
        by (simp add: Let_def)
      from "1.IH"[OF \<open>i \<le> j\<close> c refl refl False this mc] show ?thesis .
    qed
  qed
qed


text \<open>
  \<open>frame arr arr' lo hi\<close>: \<open>arr'\<close> is \<open>arr\<close> except inside \<open>[lo, hi]\<close>;
  \<open>moved_within arr arr' lo hi\<close>: moreover every item of \<open>arr'\<close> inside \<open>[lo, hi]\<close> is
  an item of \<open>arr\<close> inside \<open>[lo, hi]\<close>.
\<close>

definition frame :: "StringItem list \<Rightarrow> StringItem list \<Rightarrow> int \<Rightarrow> int \<Rightarrow> bool" where
  "frame arr arr' lo hi \<longleftrightarrow>
     length arr' = length arr \<and> (\<forall>k. 0 \<le> k \<and> (k < lo \<or> hi < k) \<longrightarrow> arr' ! nat k = arr ! nat k)"

definition moved_within :: "StringItem list \<Rightarrow> StringItem list \<Rightarrow> int \<Rightarrow> int \<Rightarrow> bool" where
  "moved_within arr arr' lo hi \<longleftrightarrow>
     frame arr arr' lo hi \<and>
     (\<forall>k. lo \<le> k \<and> k \<le> hi \<longrightarrow> (\<exists>k'. lo \<le> k' \<and> k' \<le> hi \<and> arr' ! nat k = arr ! nat k'))"

lemma frame_refl: "frame arr arr lo hi"
  by (simp add: frame_def)

lemma frame_trans: "frame a b lo hi \<Longrightarrow> frame b c lo hi \<Longrightarrow> frame a c lo hi"
  by (simp add: frame_def)

lemma frame_mono: "frame a b lo hi \<Longrightarrow> lo' \<le> lo \<Longrightarrow> hi \<le> hi' \<Longrightarrow> frame a b lo' hi'"
  by (auto simp add: frame_def)

lemma frame_length: "frame a b lo hi \<Longrightarrow> length b = length a"
  by (simp add: frame_def)

lemma moved_within_refl: "moved_within arr arr lo hi"
  by (auto simp add: moved_within_def frame_refl)

lemma moved_within_frame: "moved_within a b lo hi \<Longrightarrow> frame a b lo hi"
  by (simp add: moved_within_def)

lemma moved_within_trans:
  assumes "moved_within a b lo hi" "moved_within b c lo hi"
  shows "moved_within a c lo hi"
proof -
  have "\<exists>k'. lo \<le> k' \<and> k' \<le> hi \<and> c ! nat k = a ! nat k'" if "lo \<le> k" "k \<le> hi" for k
  proof -
    from assms(2) that obtain k1 where "lo \<le> k1" "k1 \<le> hi" "c ! nat k = b ! nat k1"
      unfolding moved_within_def by blast
    moreover from assms(1) this obtain k2 where "lo \<le> k2" "k2 \<le> hi" "b ! nat k1 = a ! nat k2"
      unfolding moved_within_def by blast
    ultimately show ?thesis by auto
  qed
  with assms show ?thesis
    unfolding moved_within_def by (blast intro: frame_trans)
qed

lemma moved_within_mono:
  assumes "moved_within a b lo hi" "lo' \<le> lo" "hi \<le> hi'" "0 \<le> lo'"
  shows "moved_within a b lo' hi'"
proof -
  have "\<exists>k'. lo' \<le> k' \<and> k' \<le> hi' \<and> b ! nat k = a ! nat k'" if "lo' \<le> k" "k \<le> hi'" for k
  proof (cases "lo \<le> k \<and> k \<le> hi")
    case True
    with assms(1) obtain k1 where "lo \<le> k1" "k1 \<le> hi" "b ! nat k = a ! nat k1"
      unfolding moved_within_def by blast
    with assms(2,3) show ?thesis by (intro exI[of _ k1]) simp
  next
    case False
    with assms(1,4) that have "b ! nat k = a ! nat k"
      unfolding moved_within_def frame_def by auto
    with that show ?thesis by blast
  qed
  with assms show ?thesis
    unfolding moved_within_def by (blast intro: frame_mono)
qed

lemma moved_within_swap:
  assumes "lo \<le> a" "a \<le> hi" "lo \<le> b" "b \<le> hi" "0 \<le> lo" "hi < int (length arr)"
  shows "moved_within arr (swap_items arr a b) lo hi"
proof -
  have nth: "swap_items arr a b ! nat k =
      (if k = b then arr ! nat a else if k = a then arr ! nat b else arr ! nat k)" if "0 \<le> k" for k
    using assms that by (intro nth_swap_items) simp_all
  have "frame arr (swap_items arr a b) lo hi"
    using assms by (auto simp add: frame_def nth)
  moreover have "\<exists>k'. lo \<le> k' \<and> k' \<le> hi \<and> swap_items arr a b ! nat k = arr ! nat k'"
    if "lo \<le> k" "k \<le> hi" for k
    using that assms nth[of k] by auto
  ultimately show ?thesis
    by (simp add: moved_within_def)
qed

lemma partition_loop_moves:
  "partition_loop arr pivot depth i j mc = Inr (arr', i', j', mc') \<Longrightarrow> 0 \<le> i \<Longrightarrow> j < int (length arr)
     \<Longrightarrow> moved_within arr arr' i j \<and> (0 \<le> mc \<longrightarrow> 0 \<le> mc')"
proof (induction arr pivot depth i j mc rule: partition_loop.induct)
  case (1 arr pivot depth i j mc)
  note eq = "1.prems"(1)[unfolded partition_loop.simps[of arr pivot depth i j mc]]
  from eq obtain i1 mc1 where
    l: "scan_left arr pivot depth i j mc = Inr (i1, mc1)"
    by (auto split: sum.splits)
  from eq l obtain j1 mc2 where
    r: "scan_right arr pivot depth i1 j mc1 = Inr (j1, mc2)"
    by (auto split: sum.splits)
  note lb = scan_left_bounds[OF l] and rb = scan_right_bounds[OF r]
  have mc2: "0 \<le> mc \<Longrightarrow> 0 \<le> mc2"
    using scan_left_mc[OF l] scan_right_mc[OF r] by simp
  show ?case
  proof (cases "i1 \<le> j1")
    case False
    with eq l r have "arr' = arr" "mc' = mc2" by simp_all
    with mc2 show ?thesis by (simp add: moved_within_refl)
  next
    case True
    let ?arr = "swap_items arr i1 j1"
    from True eq l r have
      rec: "partition_loop ?arr pivot depth (i1 + 1) (j1 - 1) mc2 = Inr (arr', i', j', mc')"
      by simp
    have "0 \<le> i1 + 1" "j1 - 1 < int (length ?arr)"
      using lb rb "1.prems"(2,3) by simp_all
    from "1.IH"[OF l refl r refl True rec this]
    have m2: "moved_within ?arr arr' (i1 + 1) (j1 - 1)" and mc': "0 \<le> mc2 \<longrightarrow> 0 \<le> mc'"
      by simp_all
    have "moved_within arr ?arr i j"
      using lb rb True "1.prems"(2,3) by (intro moved_within_swap) simp_all
    moreover have "moved_within ?arr arr' i j"
      using lb rb "1.prems"(2) by (intro moved_within_mono[OF m2]) simp_all
    ultimately have "moved_within arr arr' i j"
      by (rule moved_within_trans)
    with mc2 mc' show ?thesis by simp
  qed
qed

lemma select_pivot_range:
  assumes "select_pivot p rnd c low high = (pivot_idx, c1)" "low \<le> high"
  shows "low \<le> pivot_idx \<and> pivot_idx \<le> high"
proof -
  have "(high - low) div 2 \<le> high - low \<and> 0 \<le> (high - low) div 2"
    using assms(2) by simp
  moreover have "int (rnd c) mod (high - low + 1) \<le> high - low \<and> 0 \<le> int (rnd c) mod (high - low + 1)"
    using pos_mod_bound[of "high - low + 1" "int (rnd c)"] assms(2) by simp
  ultimately show ?thesis
    using assms(1) by (cases p) (auto simp: select_pivot_def)
qed

lemma partition_moves:
  assumes part: "partition p rnd c arr low high depth = Inr (arr3, c1, j, mc)"
    and range: "low < high" "0 \<le> low" "high < int (length arr)"
  shows "moved_within arr arr3 low high" and "0 \<le> mc" and "low \<le> j" and "j \<le> high"
proof -
  obtain pivot_idx c1' where sp: "select_pivot p rnd c low high = (pivot_idx, c1')"
    by (cases "select_pivot p rnd c low high")
  let ?arr1 = "swap_items arr low pivot_idx"
  from part sp obtain arr2 i mc0 where
    loop: "partition_loop ?arr1 (?arr1 ! nat low) depth (low + 1) high INT_MAX = Inr (arr2, i, j, mc0)"
    and arr3: "arr3 = swap_items arr2 low j"
    and mc: "mc = (if p = C_port \<and> mc0 = INT_MAX then 0 else mc0)"
    by (auto simp add: partition_def Let_def split: sum.splits)
  from partition_split_bounds[OF part range(1)] show j: "low \<le> j" "j \<le> high"
    by simp_all
  from select_pivot_range[OF sp] range have pv: "low \<le> pivot_idx" "pivot_idx \<le> high"
    by simp_all
  have m1: "moved_within arr ?arr1 low high"
    using pv range by (intro moved_within_swap) simp_all
  from partition_loop_moves[OF loop] range
  have m2: "moved_within ?arr1 arr2 (low + 1) high" and mc0: "0 \<le> mc0"
    by (simp_all add: INT_MAX_def)
  have m2': "moved_within ?arr1 arr2 low high"
    using range by (intro moved_within_mono[OF m2]) simp_all
  have "length arr2 = length arr"
    using m2' by (simp add: moved_within_def frame_def)
  then have m3: "moved_within arr2 arr3 low high"
    unfolding arr3 using j range by (intro moved_within_swap) simp_all
  from m1 m2' m3 show "moved_within arr arr3 low high"
    by (blast intro: moved_within_trans)
  from mc mc0 show "0 \<le> mc" by simp
qed


lemma refresh_range_nth:
  "0 \<le> k \<Longrightarrow> hi < int (length arr) \<Longrightarrow>
     length (refresh_range arr k hi d) = length arr \<and>
     (\<forall>m. 0 \<le> m \<longrightarrow> refresh_range arr k hi d ! nat m =
        (if k \<le> m \<and> m \<le> hi then refresh_cache (arr ! nat m) d else arr ! nat m))"
proof (induction arr k hi d rule: refresh_range.induct)
  case (1 arr k hi d)
  show ?case
  proof (cases "k \<le> hi")
    case False
    then have "refresh_range arr k hi d = arr"
      by (simp add: refresh_range.simps[of arr k hi d])
    with False show ?thesis by auto
  next
    case True
    let ?arr = "arr[nat k := refresh_cache (arr ! nat k) d]"
    have unfold: "refresh_range arr k hi d = refresh_range ?arr (k + 1) hi d"
      using True by (simp add: refresh_range.simps[of arr k hi d])
    from "1.IH"[OF True] "1.prems" have
      len: "length (refresh_range ?arr (k + 1) hi d) = length arr" and
      nth: "\<And>m. 0 \<le> m \<Longrightarrow> refresh_range ?arr (k + 1) hi d ! nat m =
        (if k + 1 \<le> m \<and> m \<le> hi then refresh_cache (?arr ! nat m) d else ?arr ! nat m)"
      by simp_all
    have "refresh_range ?arr (k + 1) hi d ! nat m =
        (if k \<le> m \<and> m \<le> hi then refresh_cache (arr ! nat m) d else arr ! nat m)"
      if "0 \<le> m" for m
    proof (cases "m = k")
      case True
      with \<open>k \<le> hi\<close> "1.prems" nth[OF that] show ?thesis by simp
    next
      case False
      with that "1.prems"(1) have "nat m \<noteq> nat k" by simp
      with False nth[OF that] show ?thesis by auto
    qed
    with len show ?thesis
      unfolding unfold by simp
  qed
qed

lemma refresh_range_frame:
  "0 \<le> lo \<Longrightarrow> hi < int (length arr) \<Longrightarrow> frame arr (refresh_range arr lo hi d) lo hi"
  using refresh_range_nth[of lo hi arr d] by (auto simp add: frame_def)

abbreviation refreshed :: "StringItem list \<Rightarrow> int \<Rightarrow> int \<Rightarrow> int \<Rightarrow> int \<Rightarrow> StringItem list" where
  "refreshed arr lo hi depth new_depth \<equiv>
     (if new_depth > depth then refresh_range arr lo hi new_depth else arr)"

abbreviation left_result ::
  "port \<Rightarrow> (nat \<Rightarrow> nat) \<Rightarrow> nat \<Rightarrow> StringItem list \<Rightarrow> int \<Rightarrow> int \<Rightarrow> int \<Rightarrow> int
     \<Rightarrow> error + (StringItem list \<times> nat)" where
  "left_result p rnd c1 arr3 low j depth new_depth \<equiv>
     (if low < j - 1
      then sort_recursive p rnd c1 (refreshed arr3 low (j - 1) depth new_depth) low (j - 1) new_depth
      else Inr (arr3, c1))"

lemma refreshed_frame:
  "0 \<le> lo \<Longrightarrow> hi < int (length arr) \<Longrightarrow> frame arr (refreshed arr lo hi depth new_depth) lo hi"
  by (simp add: refresh_range_frame frame_refl)

lemma sort_recursive_base: "high \<le> low \<Longrightarrow> sort_recursive p rnd c arr low high depth = Inr (arr, c)"
  by (simp add: sort_recursive.simps[of p rnd c arr low high depth])

lemma sort_recursive_fail:
  "low < high \<Longrightarrow> partition p rnd c arr low high depth = Inl e
     \<Longrightarrow> sort_recursive p rnd c arr low high depth = Inl e"
  by (simp add: sort_recursive.simps[of p rnd c arr low high depth])

lemma sort_recursive_step:
  "low < high \<Longrightarrow> partition p rnd c arr low high depth = Inr (arr3, c1, j, mc) \<Longrightarrow>
     sort_recursive p rnd c arr low high depth =
       (case left_result p rnd c1 arr3 low j depth (depth + mc) of
          Inl e \<Rightarrow> Inl e
        | Inr (arr4, c2) \<Rightarrow>
            if j + 1 < high
            then sort_recursive p rnd c2 (refreshed arr4 (j + 1) high depth (depth + mc))
                   (j + 1) high (depth + mc)
            else Inr (arr4, c2))"
  by (simp add: sort_recursive.simps[of p rnd c arr low high depth] Let_def)

lemma sort_recursive_induct [case_names base fail step]:
  assumes base: "\<And>p rnd c arr low high depth. high \<le> low \<Longrightarrow> P p rnd c arr low high depth"
    and fail: "\<And>p rnd c arr low high depth e.
        low < high \<Longrightarrow> partition p rnd c arr low high depth = Inl e \<Longrightarrow> P p rnd c arr low high depth"
    and step: "\<And>p rnd c arr low high depth arr3 c1 j mc.
        low < high \<Longrightarrow> partition p rnd c arr low high depth = Inr (arr3, c1, j, mc) \<Longrightarrow>
        (low < j - 1 \<Longrightarrow>
           P p rnd c1 (refreshed arr3 low (j - 1) depth (depth + mc)) low (j - 1) (depth + mc)) \<Longrightarrow>
        (\<And>arr4 c2. left_result p rnd c1 arr3 low j depth (depth + mc) = Inr (arr4, c2) \<Longrightarrow>
           j + 1 < high \<Longrightarrow>
           P p rnd c2 (refreshed arr4 (j + 1) high depth (depth + mc)) (j + 1) high (depth + mc)) \<Longrightarrow>
        P p rnd c arr low high depth"
  shows "P p rnd c arr low high depth"
proof (induction p rnd c arr low high depth rule: sort_recursive.induct)
  case (1 p rnd c arr low high depth)
  show ?case
  proof (cases "high \<le> low")
    case True
    then show ?thesis by (rule base)
  next
    case False
    then have lt: "low < high" by simp
    show ?thesis
    proof (cases "partition p rnd c arr low high depth")
      case (Inl e)
      with lt show ?thesis by (rule fail)
    next
      case (Inr r)
      obtain arr3 c1 j mc where r: "r = (arr3, c1, j, mc)" by (cases r)
      show ?thesis
      proof (rule step[OF lt Inr[unfolded r]])
        assume "low < j - 1"
        from "1.IH"(1)[OF False Inr r[symmetric] refl refl refl this]
        show "P p rnd c1 (refreshed arr3 low (j - 1) depth (depth + mc)) low (j - 1) (depth + mc)" .
      next
        fix arr4 c2
        assume "left_result p rnd c1 arr3 low j depth (depth + mc) = Inr (arr4, c2)" "j + 1 < high"
        from "1.IH"(2)[OF False Inr r[symmetric] refl refl refl this(1) refl this(2)]
        show "P p rnd c2 (refreshed arr4 (j + 1) high depth (depth + mc)) (j + 1) high (depth + mc)" .
      qed
    qed
  qed
qed

lemma sort_recursive_frame:
  "sort_recursive p rnd c arr low high depth = Inr (arr', c') \<Longrightarrow> 0 \<le> low \<Longrightarrow> high < int (length arr)
     \<Longrightarrow> frame arr arr' low high"
proof (induction p rnd c arr low high depth arbitrary: arr' c' rule: sort_recursive_induct)
  case (base p rnd c arr low high depth)
  then show ?case by (simp add: sort_recursive_base frame_refl)
next
  case (fail p rnd c arr low high depth e)
  then show ?case by (simp add: sort_recursive_fail)
next
  case (step p rnd c arr low high depth arr3 c1 j mc)
  note part = partition_moves[OF step.hyps(2) step.hyps(1) step.prems(2,3)]
  from part(1) have f0: "frame arr arr3 low high" and len3: "length arr3 = length arr"
    by (simp_all add: moved_within_def frame_def)
  from step.prems(1) obtain arr4 c2 where
    left: "left_result p rnd c1 arr3 low j depth (depth + mc) = Inr (arr4, c2)" and
    right: "(if j + 1 < high
             then sort_recursive p rnd c2 (refreshed arr4 (j + 1) high depth (depth + mc))
                    (j + 1) high (depth + mc)
             else Inr (arr4, c2)) = Inr (arr', c')"
    unfolding sort_recursive_step[OF step.hyps(1,2)]
    by (auto split: sum.splits)
  have f1: "frame arr3 arr4 low (j - 1)"
  proof (cases "low < j - 1")
    case True
    let ?a = "refreshed arr3 low (j - 1) depth (depth + mc)"
    have fa: "frame arr3 ?a low (j - 1)"
      using step.prems(2,3) part(4) len3 by (intro refreshed_frame) simp_all
    then have "length ?a = length arr3" by (rule frame_length)
    then have "frame ?a arr4 low (j - 1)"
      using True left step.prems(2,3) part(4) len3 by (intro step.IH(1)) simp_all
    with fa show ?thesis by (rule frame_trans)
  next
    case False
    with left show ?thesis by (simp add: frame_refl)
  qed
  then have len4: "length arr4 = length arr" using len3 by (simp add: frame_def)
  have f2: "frame arr4 arr' (j + 1) high"
  proof (cases "j + 1 < high")
    case True
    let ?a = "refreshed arr4 (j + 1) high depth (depth + mc)"
    have fa: "frame arr4 ?a (j + 1) high"
      using step.prems(2,3) part(3) len4 by (intro refreshed_frame) simp_all
    then have "length ?a = length arr4" by (rule frame_length)
    then have "frame ?a arr' (j + 1) high"
      using True left right step.prems(2,3) part(3) len4 by (intro step.IH(2)) simp_all
    with fa show ?thesis by (rule frame_trans)
  next
    case False
    with right show ?thesis by (simp add: frame_refl)
  qed
  have "frame arr3 arr4 low high"
    using part(4) by (intro frame_mono[OF f1]) simp_all
  moreover have "frame arr4 arr' low high"
    using f2 part(3) by (intro frame_mono[OF f2]) simp_all
  ultimately show ?case
    using f0 by (blast intro: frame_trans)
qed


section \<open>Windows along the recursion\<close>

definition windows_at :: "StringItem list \<Rightarrow> int \<Rightarrow> int \<Rightarrow> int \<Rightarrow> bool" where
  "windows_at arr lo hi d \<longleftrightarrow>
     (\<forall>k. lo \<le> k \<and> k \<le> hi \<longrightarrow> cache (arr ! nat k) = load_window (ptr (arr ! nat k)) d)"

text \<open>
  \<open>range_loaded arr low high depth\<close>: the range lies inside the array, and the window of
  every item of the range is \<open>load_window\<close> of the item's string at \<open>depth\<close>.

  \<open>sort_recursive_checked\<close> is \<open>sort_recursive\<close> with one statement added at the head of
  the body: a call on a range of two or more items first asserts \<open>range_loaded\<close> of its
  array, range and depth, and the run stops with \<open>None\<close> where the assertion fails.
  The rest, the partition, the two refreshes and the two recursive calls, is the text of
  \<open>sort_recursive\<close>. A run that ends with \<open>Some r\<close> has met the assertion at every call
  it made, at any level of the recursion.
\<close>

definition range_loaded :: "StringItem list \<Rightarrow> int \<Rightarrow> int \<Rightarrow> int \<Rightarrow> bool" where
  "range_loaded arr low high depth \<longleftrightarrow>
     0 \<le> low \<and> high < int (length arr) \<and>
     list_all (\<lambda>k. cache (arr ! nat k) = load_window (ptr (arr ! nat k)) depth) [low..high]"

function sort_recursive_checked ::
  "port \<Rightarrow> (nat \<Rightarrow> nat) \<Rightarrow> nat \<Rightarrow> StringItem list \<Rightarrow> int \<Rightarrow> int \<Rightarrow> int
     \<Rightarrow> (error + (StringItem list \<times> nat)) option" where
  "sort_recursive_checked p rnd c arr low high depth =
     (if low \<ge> high then Some (Inr (arr, c))
      else if \<not> range_loaded arr low high depth then None
      else
        case partition p rnd c arr low high depth of
          Inl e \<Rightarrow> Some (Inl e)
        | Inr (arr3, c1, j, min_common_with_pivot) \<Rightarrow>
            let new_depth = depth + min_common_with_pivot
            in case (if low < j - 1
                     then sort_recursive_checked p rnd c1
                            (if new_depth > depth then refresh_range arr3 low (j - 1) new_depth else arr3)
                            low (j - 1) new_depth
                     else Some (Inr (arr3, c1))) of
                 None \<Rightarrow> None
               | Some (Inl e) \<Rightarrow> Some (Inl e)
               | Some (Inr (arr4, c2)) \<Rightarrow>
                   if j + 1 < high
                   then sort_recursive_checked p rnd c2
                          (if new_depth > depth then refresh_range arr4 (j + 1) high new_depth else arr4)
                          (j + 1) high new_depth
                   else Some (Inr (arr4, c2)))"
  by pat_completeness auto
termination
proof (relation "measure (\<lambda>(p, rnd, c, arr, low, high, depth). nat (high - low))", goal_cases)
  case 1
  show ?case by simp
next
  case (2 p rnd c arr low high depth x2 arr3 y c1 ya j mc new_depth)
  then have "partition p rnd c arr low high depth = Inr (arr3, c1, j, mc)" "low < high"
    by simp_all
  from partition_split_bounds[OF this] \<open>low < high\<close> show ?case by simp
next
  case (3 p rnd c arr low high depth x2 arr3 y c1 ya j mc new_depth r arr4c arr4 c2)
  then have "partition p rnd c arr low high depth = Inr (arr3, c1, j, mc)" "low < high"
    by simp_all
  from partition_split_bounds[OF this] \<open>j + 1 < high\<close> show ?case by simp
qed

declare sort_recursive_checked.simps [simp del]

lemma windows_at_moved:
  "moved_within arr arr' lo hi \<Longrightarrow> windows_at arr lo hi d \<Longrightarrow> windows_at arr' lo hi d"
  unfolding moved_within_def windows_at_def by metis

lemma windows_at_frame:
  "frame arr arr' lo hi \<Longrightarrow> windows_at arr lo2 hi2 d \<Longrightarrow> 0 \<le> lo2 \<Longrightarrow> hi2 < lo \<or> hi < lo2
     \<Longrightarrow> windows_at arr' lo2 hi2 d"
  unfolding frame_def windows_at_def by auto

lemma windows_at_sub:
  "windows_at arr lo hi d \<Longrightarrow> lo \<le> lo2 \<Longrightarrow> hi2 \<le> hi \<Longrightarrow> windows_at arr lo2 hi2 d"
  unfolding windows_at_def by auto

lemma ptr_refresh_cache [simp]: "ptr (refresh_cache item d) = ptr item"
  by (simp add: refresh_cache_def Let_def)

lemma windows_at_refresh_range:
  assumes "0 \<le> lo" "hi < int (length arr)"
  shows "windows_at (refresh_range arr lo hi d) lo hi d"
proof -
  have "cache (refresh_range arr lo hi d ! nat k) = load_window (ptr (refresh_range arr lo hi d ! nat k)) d"
    if "lo \<le> k" "k \<le> hi" for k
  proof -
    from that assms have "refresh_range arr lo hi d ! nat k = refresh_cache (arr ! nat k) d"
      using refresh_range_nth[OF assms, of d] by simp
    then show ?thesis by (simp add: cache_refresh_cache)
  qed
  then show ?thesis by (simp add: windows_at_def)
qed

lemma windows_at_refreshed:
  assumes "0 \<le> lo" "hi < int (length arr)" "windows_at arr lo hi depth" "0 \<le> mc"
  shows "windows_at (refreshed arr lo hi depth (depth + mc)) lo hi (depth + mc)"
proof (cases "depth + mc > depth")
  case True
  with assms(1,2) show ?thesis by (simp add: windows_at_refresh_range)
next
  case False
  with assms(4) have "mc = 0" by simp
  with assms(3) show ?thesis by simp
qed

lemma range_loaded_iff:
  "range_loaded arr low high depth \<longleftrightarrow>
     0 \<le> low \<and> high < int (length arr) \<and> windows_at arr low high depth"
  by (auto simp add: range_loaded_def windows_at_def list_all_iff)

lemma initial_range_loaded:
  "range_loaded (map make_item strings) 0 (int (length strings) - 1) 0"
  by (auto simp add: range_loaded_iff windows_at_def make_item_def cache_refresh_cache)

lemma left_range_loaded:
  assumes lt: "low < high" and part: "partition p rnd c arr low high depth = Inr (arr3, c1, j, mc)"
    and ok: "range_loaded arr low high depth"
  shows "range_loaded (refreshed arr3 low (j - 1) depth (depth + mc)) low (j - 1) (depth + mc)"
proof -
  from ok have range: "0 \<le> low" "high < int (length arr)"
    and w: "windows_at arr low high depth"
    by (simp_all add: range_loaded_iff)
  note pm = partition_moves[OF part lt range]
  from pm(1) have len3: "length arr3 = length arr"
    by (simp add: moved_within_def frame_def)
  have "windows_at arr3 low high depth"
    using pm(1) w by (rule windows_at_moved)
  then have "windows_at arr3 low (j - 1) depth"
    by (rule windows_at_sub) (use pm(4) in simp_all)
  define a where "a = refreshed arr3 low (j - 1) depth (depth + mc)"
  have "windows_at a low (j - 1) (depth + mc)"
    unfolding a_def using range pm(2,4) len3 \<open>windows_at arr3 low (j - 1) depth\<close>
    by (intro windows_at_refreshed) simp_all
  moreover have "length a = length arr"
    unfolding a_def
    using refreshed_frame[of low "j - 1" arr3 depth "depth + mc"] range pm(4) len3
    by (simp add: frame_def)
  ultimately have "range_loaded a low (j - 1) (depth + mc)"
    using range pm(4) by (simp add: range_loaded_iff)
  then show ?thesis
    by (simp only: a_def)
qed

lemma right_range_loaded:
  assumes lt: "low < high" and part: "partition p rnd c arr low high depth = Inr (arr3, c1, j, mc)"
    and ok: "range_loaded arr low high depth"
    and left: "left_result p rnd c1 arr3 low j depth (depth + mc) = Inr (arr4, c2)"
  shows "range_loaded (refreshed arr4 (j + 1) high depth (depth + mc)) (j + 1) high (depth + mc)"
proof -
  from ok have range: "0 \<le> low" "high < int (length arr)"
    and w: "windows_at arr low high depth"
    by (simp_all add: range_loaded_iff)
  note pm = partition_moves[OF part lt range]
  from pm(1) have len3: "length arr3 = length arr"
    by (simp add: moved_within_def frame_def)
  have w3: "windows_at arr3 low high depth"
    using pm(1) w by (rule windows_at_moved)
  have f: "frame arr3 arr4 low (j - 1)"
  proof (cases "low < j - 1")
    case True
    let ?a = "refreshed arr3 low (j - 1) depth (depth + mc)"
    have fa: "frame arr3 ?a low (j - 1)"
      using range pm(4) len3 by (intro refreshed_frame) simp_all
    then have la: "length ?a = length arr3" by (rule frame_length)
    from left have "sort_recursive p rnd c1 ?a low (j - 1) (depth + mc) = Inr (arr4, c2)"
      by (simp only: True if_True)
    then have "frame ?a arr4 low (j - 1)"
      by (rule sort_recursive_frame) (use range pm(4) len3 la in simp_all)
    with fa show ?thesis by (rule frame_trans)
  next
    case False
    with left show ?thesis by (simp add: frame_refl)
  qed
  then have len4: "length arr4 = length arr" using len3 by (simp add: frame_def)
  have "windows_at arr3 (j + 1) high depth"
    using w3 by (rule windows_at_sub) (use pm(3) in simp_all)
  with f have w4: "windows_at arr4 (j + 1) high depth"
    by (rule windows_at_frame) (use range pm(3) in simp_all)
  define a where "a = refreshed arr4 (j + 1) high depth (depth + mc)"
  have "windows_at a (j + 1) high (depth + mc)"
    unfolding a_def using range pm(2,3) len4 w4
    by (intro windows_at_refreshed) simp_all
  moreover have "length a = length arr"
    unfolding a_def
    using refreshed_frame[of "j + 1" high arr4 depth "depth + mc"] range pm(3) len4
    by (simp add: frame_def)
  ultimately have "range_loaded a (j + 1) high (depth + mc)"
    using range pm(3) by (simp add: range_loaded_iff)
  then show ?thesis
    by (simp only: a_def)
qed

lemma sort_recursive_checked_base:
  "high \<le> low \<Longrightarrow> sort_recursive_checked p rnd c arr low high depth = Some (Inr (arr, c))"
  by (simp add: sort_recursive_checked.simps[of p rnd c arr low high depth])

lemma sort_recursive_checked_fail:
  "low < high \<Longrightarrow> range_loaded arr low high depth \<Longrightarrow>
     partition p rnd c arr low high depth = Inl e
     \<Longrightarrow> sort_recursive_checked p rnd c arr low high depth = Some (Inl e)"
  by (simp add: sort_recursive_checked.simps[of p rnd c arr low high depth])

lemma sort_recursive_checked_step:
  "low < high \<Longrightarrow> range_loaded arr low high depth \<Longrightarrow>
     partition p rnd c arr low high depth = Inr (arr3, c1, j, mc) \<Longrightarrow>
     sort_recursive_checked p rnd c arr low high depth =
       (case (if low < j - 1
              then sort_recursive_checked p rnd c1 (refreshed arr3 low (j - 1) depth (depth + mc))
                     low (j - 1) (depth + mc)
              else Some (Inr (arr3, c1))) of
          None \<Rightarrow> None
        | Some (Inl e) \<Rightarrow> Some (Inl e)
        | Some (Inr (arr4, c2)) \<Rightarrow>
            if j + 1 < high
            then sort_recursive_checked p rnd c2 (refreshed arr4 (j + 1) high depth (depth + mc))
                   (j + 1) high (depth + mc)
            else Some (Inr (arr4, c2)))"
  by (simp add: sort_recursive_checked.simps[of p rnd c arr low high depth] Let_def)

lemma sort_recursive_checked_eq:
  "range_loaded arr low high depth \<Longrightarrow>
     sort_recursive_checked p rnd c arr low high depth = Some (sort_recursive p rnd c arr low high depth)"
proof (induction p rnd c arr low high depth rule: sort_recursive_induct)
  case (base p rnd c arr low high depth)
  then show ?case
    by (simp add: sort_recursive_checked_base sort_recursive_base)
next
  case (fail p rnd c arr low high depth e)
  then show ?case
    by (simp add: sort_recursive_checked_fail sort_recursive_fail)
next
  case (step p rnd c arr low high depth arr3 c1 j mc)
  note ok = step.prems
  define l where "l = left_result p rnd c1 arr3 low j depth (depth + mc)"
  have left: "(if low < j - 1
         then sort_recursive_checked p rnd c1 (refreshed arr3 low (j - 1) depth (depth + mc))
                low (j - 1) (depth + mc)
         else Some (Inr (arr3, c1))) = Some l"
  proof (cases "low < j - 1")
    case True
    from step.IH(1)[OF True left_range_loaded[OF step.hyps(1,2) ok]] True
    show ?thesis by (simp only: l_def if_True)
  next
    case False
    then show ?thesis by (simp only: l_def if_False)
  qed
  have lhs: "sort_recursive_checked p rnd c arr low high depth =
      (case Some l of
          None \<Rightarrow> None
        | Some (Inl e) \<Rightarrow> Some (Inl e)
        | Some (Inr (arr4, c2)) \<Rightarrow>
            if j + 1 < high
            then sort_recursive_checked p rnd c2 (refreshed arr4 (j + 1) high depth (depth + mc))
                   (j + 1) high (depth + mc)
            else Some (Inr (arr4, c2)))"
    by (simp only: sort_recursive_checked_step[OF step.hyps(1) ok step.hyps(2)] left)
  have rhs: "sort_recursive p rnd c arr low high depth =
      (case l of
          Inl e \<Rightarrow> Inl e
        | Inr (arr4, c2) \<Rightarrow>
            if j + 1 < high
            then sort_recursive p rnd c2 (refreshed arr4 (j + 1) high depth (depth + mc))
                   (j + 1) high (depth + mc)
            else Inr (arr4, c2))"
    by (simp only: sort_recursive_step[OF step.hyps(1,2)] l_def)
  show ?case
  proof (cases l)
    case (Inl e)
    with lhs rhs show ?thesis by simp
  next
    case (Inr r)
    obtain arr4 c2 where r: "r = (arr4, c2)" by (cases r)
    from Inr r have l: "left_result p rnd c1 arr3 low j depth (depth + mc) = Inr (arr4, c2)"
      by (simp only: l_def)
    show ?thesis
    proof (cases "j + 1 < high")
      case True
      from step.IH(2)[OF l True right_range_loaded[OF step.hyps(1,2) ok l]]
      show ?thesis
        unfolding lhs rhs Inr r using True by simp
    next
      case False
      then show ?thesis
        unfolding lhs rhs Inr r by simp
    qed
  qed
qed

text \<open>
  Claim C7. On the array that the top-level sort builds, with the range and the depth it
  passes, the assertion of \<open>sort_recursive_checked\<close> never fails, and the run is the run of
  \<open>sort_recursive\<close>: every call of the recursive driver on a range of two or more items,
  made directly or through any chain of recursive calls, starts with the window of every
  item of its range equal to \<open>load_window\<close> of the item's string at the call's depth (by
  C4 the zero-padded 8-byte slice at that offset). This holds for both files, whatever
  \<open>rand()\<close> returns. For a recursive call at a larger depth it is the refresh before the
  call that makes it so: the windows were loaded at the caller's depth until then.
\<close>

theorem windows_valid_at_every_call:
  "sort_recursive_checked p rnd c (map make_item strings) 0 (int (length strings) - 1) 0 =
     Some (sort_recursive p rnd c (map make_item strings) 0 (int (length strings) - 1) 0)"
  by (rule sort_recursive_checked_eq[OF initial_range_loaded])

theorem windows_valid_at_every_call_witness:
  "sort_recursive_checked C_port (\<lambda>k. 0) 0
     (map make_item [[97, 100], [97, 99], [97, 98], [97, 97]])
     0 (int (length [[97, 100 :: byte], [97, 99], [97, 98], [97, 97]]) - 1) 0 =
     Some (Inr ([\<lparr>ptr = [97, 97], cache = 6989586621679009792\<rparr>,
                 \<lparr>ptr = [97, 98], cache = 7061644215716937728\<rparr>,
                 \<lparr>ptr = [97, 99], cache = 7017452644373364736\<rparr>,
                 \<lparr>ptr = [97, 100], cache = 7017734119350075392\<rparr>], 0)) \<and>
   sort_recursive_checked C_port (\<lambda>k. 0) 0
     [make_item [97, 100], make_item [97, 99], \<lparr>ptr = [97, 98], cache = 5\<rparr>] 0 2 0 = None"
proof -
  let ?S = "[[97, 100 :: byte], [97, 99], [97, 98], [97, 97]]"
  have "sort_recursive C_port (\<lambda>k. 0) 0 (map make_item ?S) 0 (int (length ?S) - 1) 0 =
      Inr ([\<lparr>ptr = [97, 97], cache = 6989586621679009792\<rparr>,
            \<lparr>ptr = [97, 98], cache = 7061644215716937728\<rparr>,
            \<lparr>ptr = [97, 99], cache = 7017452644373364736\<rparr>,
            \<lparr>ptr = [97, 100], cache = 7017734119350075392\<rparr>], 0)"
    by code_simp
  moreover have "sort_recursive_checked C_port (\<lambda>k. 0) 0
      [make_item [97, 100], make_item [97, 99], \<lparr>ptr = [97, 98], cache = 5\<rparr>] 0 2 0 = None"
    by code_simp
  ultimately show ?thesis
    using windows_valid_at_every_call[of C_port "\<lambda>k. 0" 0 ?S] by simp
qed

section \<open>Pivot selection (C8)\<close>

text \<open>
  Claim C8 says that every partition call of the cached variant draws its pivot index at
  random from \<open>[low, high]\<close>. The C file takes the middle element instead, whatever the
  random source would give, and does not consume it: on the range \<open>[0, 2]\<close> the pivot
  index is 1 both when \<open>rand()\<close> would have led to index 2 and when it would have led to
  index 0.
\<close>

theorem c_pivot_not_random_counterexample:
  "select_pivot C_port (\<lambda>k. 2) 0 0 2 = (1, 0) \<and> select_pivot C_port (\<lambda>k. 0) 0 0 2 = (1, 0)"
  by (simp add: select_pivot_def)

text \<open>
  Claim C8 as amended. The C++ file selects \<open>low + rand() % (high - low + 1)\<close> and
  consumes one result of \<open>rand()\<close>; the C file selects the middle index
  \<open>low + (high - low) / 2\<close> and leaves the random source alone. In both files the pivot
  index lies in \<open>[low, high]\<close> whenever \<open>low \<le> high\<close>.
\<close>

theorem pivot_selection_by_port:
  "select_pivot C_port rnd c low high = (low + (high - low) div 2, c) \<and>
   select_pivot Cpp_port rnd c low high = (low + int (rnd c) mod (high - low + 1), c + 1) \<and>
   (low \<le> high \<longrightarrow>
      low \<le> fst (select_pivot p rnd c low high) \<and> fst (select_pivot p rnd c low high) \<le> high)"
proof -
  have "low \<le> high \<Longrightarrow> (high - low) div 2 \<le> high - low \<and> 0 \<le> (high - low) div 2"
    by simp
  moreover have "low \<le> high \<Longrightarrow>
      int (rnd c) mod (high - low + 1) \<le> high - low \<and> 0 \<le> int (rnd c) mod (high - low + 1)"
    using pos_mod_bound[of "high - low + 1" "int (rnd c)"] by simp
  ultimately show ?thesis
    by (cases p) (auto simp: select_pivot_def)
qed

theorem pivot_selection_by_port_witness:
  "(3::int) \<le> 7 \<and> select_pivot C_port (\<lambda>k. 11) 0 3 7 = (5, 0) \<and>
   select_pivot Cpp_port (\<lambda>k. 11) 0 3 7 = (4, 1) \<and>
   3 \<le> fst (select_pivot Cpp_port (\<lambda>k. 11) 0 3 7) \<and> fst (select_pivot Cpp_port (\<lambda>k. 11) 0 3 7) \<le> 7"
  using pivot_selection_by_port[of "\<lambda>k. 11" 0 3 7 Cpp_port] by simp

section \<open>Allocation failure (C9)\<close>

text \<open>
  Claim C9 says that \<open>optimized_orasort\<close> surfaces an explicit failure result when the
  item array cannot be allocated. The function returns nothing, and on that path it
  returns as it does after a sort: the caller gets its two strings back, unsorted, and no
  failure value.
\<close>

theorem alloc_failure_silent_counterexample:
  "optimized_orasort False [[98], [97]] = Inr [[98], [97]]"
  by (simp add: optimized_orasort_def)

text \<open>
  Claim C9 as amended. When the allocation of the item array fails, \<open>optimized_orasort\<close>
  returns normally, with no failure indication, and leaves the caller's sequence as it
  was.
\<close>

theorem alloc_failure_returns_input_unchanged:
  "optimized_orasort False strings = Inr strings"
  by (simp add: optimized_orasort_def Let_def)

section \<open>The slow path reads past the end of short strings (C6, C1, C2, C3, C10)\<close>

text \<open>
  When the two windows are equal, the comparator's first read is at offset \<open>depth + 8\<close>
  of the first string. It falls outside the buffer as soon as that string is shorter than
  \<open>depth + 8\<close>, and the whole scan stays inside both buffers when both strings have at
  least \<open>depth + 8\<close> bytes.
\<close>

lemma slow_path_out_of_bounds:
  assumes "cache a = cache b" and "int (length (ptr a)) < depth + 8"
  shows "compare_and_count a b depth = Inl OutOfBounds"
proof -
  have "read_byte (ptr a) (depth + 8 + 0) = Inl OutOfBounds"
    using assms(2) by (simp add: read_byte_def)
  then have "scan_equal (ptr a) (ptr b) (depth + 8) 0 = Inl OutOfBounds"
    by (simp add: scan_equal.simps[of "ptr a" "ptr b" "depth + 8" 0])
  with assms(1) show ?thesis
    by (simp add: compare_and_count_def)
qed

lemma read_byte_in_bounds: "0 \<le> i \<Longrightarrow> i \<le> int (length s) \<Longrightarrow> \<exists>c. read_byte s i = Inr c"
  by (simp add: read_byte_def)

lemma read_byte_nonzero: "read_byte s i = Inr c \<Longrightarrow> c \<noteq> 0 \<Longrightarrow> 0 \<le> i \<and> i < int (length s)"
  by (auto simp add: read_byte_def split: if_splits)

lemma scan_equal_in_bounds:
  "0 \<le> off + k \<Longrightarrow> off + k \<le> int (length s1) \<Longrightarrow> off + k \<le> int (length s2) \<Longrightarrow>
     \<exists>k'. scan_equal s1 s2 off k = Inr k' \<and> k \<le> k' \<and>
          off + k' \<le> int (length s1) \<and> off + k' \<le> int (length s2)"
proof (induction s1 s2 off k rule: scan_equal.induct)
  case (1 s1 s2 off k)
  obtain c1 where c1: "read_byte s1 (off + k) = Inr c1"
    using "1.prems" read_byte_in_bounds[of "off + k" s1] by blast
  obtain c2 where c2: "read_byte s2 (off + k) = Inr c2"
    using "1.prems" read_byte_in_bounds[of "off + k" s2] by blast
  show ?case
  proof (cases "c1 \<noteq> 0 \<and> c2 \<noteq> 0 \<and> c1 = c2")
    case False
    then have "scan_equal s1 s2 off k = Inr k"
      using c1 c2 by (auto simp add: scan_equal.simps[of s1 s2 off k])
    with "1.prems" show ?thesis by simp
  next
    case True
    then have unfold: "scan_equal s1 s2 off k = scan_equal s1 s2 off (k + 1)"
      using c1 c2 by (simp add: scan_equal.simps[of s1 s2 off k])
    from True have "off + k < int (length s1)" "off + k < int (length s2)"
      using read_byte_nonzero[OF c1] read_byte_nonzero[OF c2] by simp_all
    with "1.prems" have "0 \<le> off + (k + 1)" "off + (k + 1) \<le> int (length s1)"
      "off + (k + 1) \<le> int (length s2)"
      by simp_all
    from "1.IH"[OF c1 _ c2 _ _ this] True
    obtain k' where "scan_equal s1 s2 off (k + 1) = Inr k'" "k + 1 \<le> k'"
      "off + k' \<le> int (length s1)" "off + k' \<le> int (length s2)"
      by auto
    then show ?thesis
      unfolding unfold by auto
  qed
qed

lemma slow_path_in_bounds:
  assumes "cache a = cache b" and "0 \<le> depth"
    and "depth + 8 \<le> int (length (ptr a))" and "depth + 8 \<le> int (length (ptr b))"
  shows "\<exists>cmp match_len. compare_and_count a b depth = Inr (cmp, match_len)"
proof -
  from scan_equal_in_bounds[of "depth + 8" 0 "ptr a" "ptr b"] assms
  obtain k where k: "scan_equal (ptr a) (ptr b) (depth + 8) 0 = Inr k" "0 \<le> k"
    "depth + 8 + k \<le> int (length (ptr a))" "depth + 8 + k \<le> int (length (ptr b))"
    by auto
  then obtain c1 c2 where "read_byte (ptr a) (depth + 8 + k) = Inr c1"
    "read_byte (ptr b) (depth + 8 + k) = Inr c2"
    using assms(2) read_byte_in_bounds[of "depth + 8 + k" "ptr a"]
      read_byte_in_bounds[of "depth + 8 + k" "ptr b"]
    by auto
  with k(1) assms(1) show ?thesis
    by (simp add: compare_and_count_def)
qed

text \<open>
  Claim C6 says that the comparator's slow path only reads bytes inside the two buffers.
  It starts reading at offset \<open>depth + 8\<close> whenever the two windows are equal, and two
  equal strings shorter than \<open>depth + 8\<close> have equal windows: for \<^verbatim>\<open>"a"\<close> against
  \<^verbatim>\<open>"a"\<close> at depth 0 the first read is at offset 8 of a two-byte buffer.
\<close>

theorem slow_path_reads_out_of_bounds:
  "cache (make_item [97]) = cache (make_item [97]) \<and>
   read_byte [97] (0 + 8) = Inl OutOfBounds \<and>
   compare_and_count (make_item [97]) (make_item [97]) 0 = Inl OutOfBounds"
  by code_simp

text \<open>
  Claim C1 says that the output of the top-level sort is sorted for every NUL-free input.
  On the specification's own scenario \<^verbatim>\<open>["", "a", ""]\<close> the C driver compares the
  two empty strings with each other, their windows are equal, and the slow path reads
  offset 8 of a one-byte buffer: the call has no defined outcome.
\<close>

theorem optimized_orasort_undefined_on_spec_scenario:
  "optimized_orasort True [[], [97], []] = Inl OutOfBounds"
  by code_simp

text \<open>
  Claim C2 says that the output is a permutation of the input for every NUL-free input.
  The C++ driver, given \<^verbatim>\<open>["a", "a"]\<close>, compares the two strings with each other
  whatever \<open>rand()\<close> returns first (here 0), and that comparison reads past the end of both.
\<close>

theorem OptimizedOrasort_sort_undefined_on_duplicates:
  "OptimizedOrasort_sort (\<lambda>k. 0) [[97], [97]] = Inl OutOfBounds"
  by code_simp

text \<open>
  Claim C3 says that every partition call on a range of two or more items with valid
  windows computes a \<open>shared_prefix\<close> that bounds from below what the items share with
  the pivot. The partition of the range \<open>[0, 1]\<close> of \<^verbatim>\<open>["", ""]\<close> at depth 0 (windows
  valid, both 0) makes one comparison, of item 1 against the pivot, and that comparison
  reads past the end of both strings: there is no \<open>shared_prefix\<close> the call can be said to
  compute, and any value \<open>8 + k\<close> it would come to exceeds the 0 bytes the two strings
  share.
\<close>

theorem partition_undefined_on_short_equal_strings:
  "cache (make_item []) = load_window [] 0 \<and>
   partition C_port (\<lambda>k. 0) 0 [make_item [], make_item []] 0 1 0 = Inl OutOfBounds \<and>
   partition Cpp_port (\<lambda>k. 0) 0 [make_item [], make_item []] 0 1 0 = Inl OutOfBounds \<and>
   partition Cpp_port (\<lambda>k. 1) 0 [make_item [], make_item []] 0 1 0 = Inl OutOfBounds"
  by code_simp

text \<open>
  Claim C10 says that the precursor and the cached variant produce the same output for
  every NUL-free input. On \<^verbatim>\<open>["b", "a", "b"]\<close> the precursor returns the sorted
  sequence; both ports of the cached variant compare the two strings \<^verbatim>\<open>"b"\<close> with
  each other and read past their ends, so they have no defined output.
\<close>

theorem cached_variant_undefined_where_precursor_sorts:
  "legrand_sort (\<lambda>k. 0) [[98], [97], [98]] = Inr [[97], [98], [98]] \<and>
   optimized_orasort True [[98], [97], [98]] = Inl OutOfBounds \<and>
   OptimizedOrasort_sort (\<lambda>k. 0) [[98], [97], [98]] = Inl OutOfBounds"
  by code_simp

end
